theory Spec2Isabelle
  imports Main "HOL-Library.AList"
begin

section \<open>Strings\<close>

text \<open>
  JavaScript strings are modelled as \<^typ>\<open>string\<close>, one \<^typ>\<open>char\<close> per code unit.
  The subdomain grammar only admits ASCII letters, digits and the dash, so the model of
  \<open>String.prototype.toLowerCase\<close> folds the ASCII letters \<open>A\<close>..\<open>Z\<close> and leaves every
  other code unit as it is.
\<close>

definition toLowerChar :: "char \<Rightarrow> char" where
  "toLowerChar c =
     (let n = (of_char c :: nat) in if 65 \<le> n \<and> n \<le> 90 then char_of (n + 32) else c)"

definition toLowerCase :: "string \<Rightarrow> string" where
  "toLowerCase s = map toLowerChar s"

section \<open>Regular expressions\<close>

text \<open>
  \<open>TUNNEL_CONFIG.SUBDOMAIN_PATTERN\<close> is the regular expression literal
  \<^verbatim>\<open>/^[a-z0-9][a-z0-9-]*[a-z0-9]$/\<close>. It has no flags, so \<^verbatim>\<open>^\<close> and \<^verbatim>\<open>$\<close> anchor
  the match at the two ends of the input and \<open>RegExp.prototype.test\<close> decides whether the
  whole string belongs to the language of the body. Regular expressions are a datatype;
  a character class is its list of ranges; matching is by derivatives.
\<close>

datatype regex =
    Zero
  | One
  | Class "(char \<times> char) list"
  | Alt regex regex
  | Seq regex regex
  | Star regex

definition in_range :: "char \<Rightarrow> char \<times> char \<Rightarrow> bool" where
  "in_range c r = ((of_char (fst r) :: nat) \<le> of_char c \<and> (of_char c :: nat) \<le> of_char (snd r))"

definition in_class :: "(char \<times> char) list \<Rightarrow> char \<Rightarrow> bool" where
  "in_class rs c = list_ex (in_range c) rs"

fun nullable :: "regex \<Rightarrow> bool" where
  "nullable Zero = False"
| "nullable One = True"
| "nullable (Class rs) = False"
| "nullable (Alt r s) = (nullable r \<or> nullable s)"
| "nullable (Seq r s) = (nullable r \<and> nullable s)"
| "nullable (Star r) = True"

fun deriv :: "char \<Rightarrow> regex \<Rightarrow> regex" where
  "deriv c Zero = Zero"
| "deriv c One = Zero"
| "deriv c (Class rs) = (if in_class rs c then One else Zero)"
| "deriv c (Alt r s) = Alt (deriv c r) (deriv c s)"
| "deriv c (Seq r s) =
     (if nullable r then Alt (Seq (deriv c r) s) (deriv c s) else Seq (deriv c r) s)"
| "deriv c (Star r) = Seq (deriv c r) (Star r)"

fun regex_test :: "regex \<Rightarrow> string \<Rightarrow> bool" where
  "regex_test r [] = nullable r"
| "regex_test r (c # cs) = regex_test (deriv c r) cs"

text \<open>The language of a regular expression, the reference semantics of the matcher.\<close>

inductive_set star :: "string set \<Rightarrow> string set" for A :: "string set" where
  star_nil: "[] \<in> star A"
| star_app: "u \<in> A \<Longrightarrow> v \<in> star A \<Longrightarrow> u @ v \<in> star A"

fun lang :: "regex \<Rightarrow> string set" where
  "lang Zero = {}"
| "lang One = {[]}"
| "lang (Class rs) = {[c] | c. in_class rs c}"
| "lang (Alt r s) = lang r \<union> lang s"
| "lang (Seq r s) = {u @ v | u v. u \<in> lang r \<and> v \<in> lang s}"
| "lang (Star r) = star (lang r)"

section \<open>Shared constants and utilities\<close>

definition MAX_TUNNELS_PER_CLIENT :: nat where
  "MAX_TUNNELS_PER_CLIENT = 10"

definition SUBDOMAIN_MIN_LENGTH :: nat where
  "SUBDOMAIN_MIN_LENGTH = 4"

definition SUBDOMAIN_MAX_LENGTH :: nat where
  "SUBDOMAIN_MAX_LENGTH = 32"

definition lower_alnum :: "(char \<times> char) list" where
  "lower_alnum = [(CHR ''a'', CHR ''z''), (CHR ''0'', CHR ''9'')]"

definition lower_alnum_dash :: "(char \<times> char) list" where
  "lower_alnum_dash = [(CHR ''a'', CHR ''z''), (CHR ''0'', CHR ''9''), (CHR ''-'', CHR ''-'')]"

definition SUBDOMAIN_PATTERN :: regex where
  "SUBDOMAIN_PATTERN = Seq (Class lower_alnum) (Seq (Star (Class lower_alnum_dash)) (Class lower_alnum))"

text \<open>
  \<open>isValidSubdomain\<close> of the shared utilities. Its argument is a string here: the guard
  \<^verbatim>\<open>!subdomain || typeof subdomain !== 'string'\<close> rejects the empty string, the only
  falsy string.
\<close>

definition isValidSubdomain :: "string \<Rightarrow> bool" where
  "isValidSubdomain subdomain =
     (if subdomain = [] then False
      else if length subdomain < SUBDOMAIN_MIN_LENGTH then False
      else if length subdomain > SUBDOMAIN_MAX_LENGTH then False
      else regex_test SUBDOMAIN_PATTERN subdomain)"

text \<open>
  The subdomain grammar in the words of the specification: a label whose first and last
  characters are lowercase letters or digits and whose interior characters are lowercase
  letters, digits or dashes.
\<close>

definition is_lower_alnum :: "char \<Rightarrow> bool" where
  "is_lower_alnum c = (c \<in> set ''abcdefghijklmnopqrstuvwxyz0123456789'')"

definition is_label_char :: "char \<Rightarrow> bool" where
  "is_label_char c = (is_lower_alnum c \<or> c = CHR ''-'')"

definition subdomain_grammar :: "string \<Rightarrow> bool" where
  "subdomain_grammar s =
     (case s of [] \<Rightarrow> False
      | a # t \<Rightarrow> t \<noteq> [] \<and> is_lower_alnum a \<and> list_all is_label_char (butlast t) \<and> is_lower_alnum (last t))"


datatype error_code =
    CONNECTION_FAILED | CONNECTION_CLOSED | CONNECTION_TIMEOUT
  | TUNNEL_NOT_FOUND | TUNNEL_LIMIT_EXCEEDED | SUBDOMAIN_TAKEN | INVALID_SUBDOMAIN
  | REQUEST_TIMEOUT | REQUEST_FAILED | INVALID_REQUEST | BODY_TOO_LARGE
  | UNAUTHORIZED | INVALID_TOKEN | TOKEN_EXPIRED
  | RATE_LIMITED
  | LOCAL_SERVER_ERROR | LOCAL_SERVER_UNREACHABLE

section \<open>JavaScript maps\<close>

text \<open>
  A JavaScript \<open>Map\<close> keeps its entries in insertion order. It is modelled as an association
  list: \<open>get\<close> is \<^const>\<open>map_of\<close>, \<open>set\<close> is \<^const>\<open>AList.update\<close> (an existing key
  keeps its position, a new key goes to the end), \<open>delete\<close> is \<^const>\<open>AList.delete\<close>.
\<close>

definition has :: "('k \<times> 'v) list \<Rightarrow> 'k \<Rightarrow> bool" where
  "has m k = (map_of m k \<noteq> None)"

section \<open>Tunnels\<close>

text \<open>
  Objects are shared by reference: a \<open>Tunnel\<close> is held by the three registry maps and by
  every suspended \<open>forwardRequest\<close> call at once, and they all see its mutations. The
  model keeps the objects in a store (a list indexed by address) and lets the maps hold
  addresses. A WebSocket connection is identified by a number.

  An entry of \<open>pendingRequests\<close> holds the \<open>resolve\<close> and \<open>reject\<close> closures that
  \<open>forwardRequest\<close> built around one deferred promise and its timeout timer; \<open>handle\<close>
  names that promise. \<open>forwardRequest\<close> is the only caller of \<open>addPendingRequest\<close> and it
  always supplies both closures.
\<close>

type_synonym ref = nat
type_synonym ws = nat

record PendingRequest =
  handle :: nat
  startTime :: int

record Tunnel =
  tunnelId :: string
  subdomain :: string
  ws :: ws
  localPort :: nat
  clientInfo :: "(string \<times> string) list"
  createdAt :: int
  lastActivity :: int
  requestCount :: nat
  bytesIn :: nat
  bytesOut :: nat
  isAlive :: bool
  pendingRequests :: "(string \<times> PendingRequest) list"

text \<open>The constructor; \<open>now\<close> is the reading of \<open>Date.now()\<close>.\<close>

definition new_Tunnel :: "string \<Rightarrow> string \<Rightarrow> ws \<Rightarrow> nat \<Rightarrow> (string \<times> string) list \<Rightarrow> int \<Rightarrow> Tunnel" where
  "new_Tunnel tid sub w port info now =
     \<lparr>tunnelId = tid, subdomain = sub, ws = w, localPort = port, clientInfo = info,
      createdAt = now, lastActivity = now, requestCount = 0, bytesIn = 0, bytesOut = 0,
      isAlive = True, pendingRequests = []\<rparr>"

definition touch :: "int \<Rightarrow> Tunnel \<Rightarrow> Tunnel" where
  "touch now t = t\<lparr>lastActivity := now\<rparr>"

definition recordRequest :: "nat \<Rightarrow> nat \<Rightarrow> int \<Rightarrow> Tunnel \<Rightarrow> Tunnel" where
  "recordRequest bIn bOut now t =
     touch now (t\<lparr>requestCount := requestCount t + 1,
                  bytesIn := bytesIn t + bIn,
                  bytesOut := bytesOut t + bOut\<rparr>)"


definition getPendingRequest :: "string \<Rightarrow> Tunnel \<Rightarrow> PendingRequest option" where
  "getPendingRequest requestId t = map_of (pendingRequests t) requestId"

definition removePendingRequest :: "string \<Rightarrow> Tunnel \<Rightarrow> Tunnel" where
  "removePendingRequest requestId t =
     t\<lparr>pendingRequests := AList.delete requestId (pendingRequests t)\<rparr>"

section \<open>Tunnel manager\<close>

text \<open>
  The events the manager emits and the calls it makes to the closures of pending
  requests are kept in the state, in the order they happen. Logging is not modelled.
\<close>

datatype event = TunnelCreated ref | TunnelClosed ref string

datatype callback = Reject nat string | Resolve nat

record TunnelManager =
  heap :: "Tunnel list"
  tunnelsBySubdomain :: "(string \<times> ref) list"
  tunnelsById :: "(string \<times> ref) list"
  tunnelsByWs :: "(ws \<times> ref list) list"
  emitted :: "event list"
  called :: "callback list"

definition new_TunnelManager :: TunnelManager where
  "new_TunnelManager =
     \<lparr>heap = [], tunnelsBySubdomain = [], tunnelsById = [], tunnelsByWs = [],
      emitted = [], called = []\<rparr>"

definition reservedSubdomains :: "string list" where
  "reservedSubdomains = [''api'', ''www'', ''admin'', ''dashboard'', ''app'', ''mail'', ''ftp'']"

datatype register_result = Success ref | Failure string error_code

definition getTunnelsByWs :: "TunnelManager \<Rightarrow> ws \<Rightarrow> ref list" where
  "getTunnelsByWs m w = (case map_of (tunnelsByWs m) w of None \<Rightarrow> [] | Some ts \<Rightarrow> ts)"

text \<open>
  The loop \<^verbatim>\<open>do { subdomain = generateSubdomain(); } while (taken or reserved)\<close>.
  \<open>generateSubdomain\<close> is a random generator of the \<open>nanoid\<close> package; its successive
  results are an argument. The loop ends at the first result that is free; when every
  supplied result is taken the loop is still running and the value is \<open>None\<close>.
\<close>

fun generate_loop :: "TunnelManager \<Rightarrow> string list \<Rightarrow> string option" where
  "generate_loop m [] = None"
| "generate_loop m (sub # draws) =
     (if has (tunnelsBySubdomain m) sub \<or> sub \<in> set reservedSubdomains
      then generate_loop m draws else Some sub)"

text \<open>
  \<open>registerTunnel\<close>. The requested subdomain is optional; the test
  \<^verbatim>\<open>if (requestedSubdomain)\<close> takes \<open>undefined\<close>, \<open>null\<close> and the empty string alike as
  no request. \<open>draws\<close> are the results of \<open>generateSubdomain()\<close>, \<open>tid\<close> is the result
  of \<open>generateTunnelId()\<close> and \<open>now\<close> the reading of the clock. Nothing in the body throws
  on these inputs, so the \<open>catch\<close> branch (\<open>CONNECTION_FAILED\<close>) is not reached.
\<close>

definition registerTunnel ::
  "ws \<Rightarrow> string option \<Rightarrow> nat \<Rightarrow> (string \<times> string) list \<Rightarrow> string list \<Rightarrow> string \<Rightarrow> int \<Rightarrow>
   TunnelManager \<Rightarrow> (register_result \<times> TunnelManager) option" where
  "registerTunnel w requestedSubdomain port info draws tid now m =
     (let chosen =
        (case requestedSubdomain of
           Some requested \<Rightarrow>
             if requested \<noteq> [] then
               if \<not> isValidSubdomain requested then
                 Some (Inl (Failure ''Invalid subdomain format'' INVALID_SUBDOMAIN))
               else if toLowerCase requested \<in> set reservedSubdomains then
                 Some (Inl (Failure ''Subdomain is reserved'' SUBDOMAIN_TAKEN))
               else if has (tunnelsBySubdomain m) (toLowerCase requested) then
                 Some (Inl (Failure ''Subdomain is already in use'' SUBDOMAIN_TAKEN))
               else Some (Inr (toLowerCase requested))
             else map_option Inr (generate_loop m draws)
         | None \<Rightarrow> map_option Inr (generate_loop m draws))
      in case chosen of
           None \<Rightarrow> None
         | Some (Inl failure) \<Rightarrow> Some (failure, m)
         | Some (Inr sub) \<Rightarrow>
             let existingTunnels = getTunnelsByWs m w in
             if length existingTunnels \<ge> MAX_TUNNELS_PER_CLIENT then
               Some (Failure ''Maximum tunnels per client exceeded'' TUNNEL_LIMIT_EXCEEDED, m)
             else
               let r = length (heap m);
                   tunnel = new_Tunnel tid sub w port info now;
                   byWs = (if \<not> has (tunnelsByWs m) w
                           then AList.update w [] (tunnelsByWs m) else tunnelsByWs m);
                   byWs' = AList.update w (the (map_of byWs w) @ [r]) byWs
               in Some (Success r,
                    m\<lparr>heap := heap m @ [tunnel],
                      tunnelsBySubdomain := AList.update sub r (tunnelsBySubdomain m),
                      tunnelsById := AList.update tid r (tunnelsById m),
                      tunnelsByWs := byWs',
                      emitted := emitted m @ [TunnelCreated r]\<rparr>))"

text \<open>\<open>getTunnelBySubdomain\<close>; the argument may be \<open>undefined\<close> (\<^verbatim>\<open>subdomain?.toLowerCase()\<close>).\<close>

definition getTunnelBySubdomain :: "TunnelManager \<Rightarrow> string option \<Rightarrow> ref option" where
  "getTunnelBySubdomain m sub =
     (case sub of None \<Rightarrow> None | Some s \<Rightarrow> map_of (tunnelsBySubdomain m) (toLowerCase s))"

definition getTunnelById :: "TunnelManager \<Rightarrow> string \<Rightarrow> ref option" where
  "getTunnelById m tid = map_of (tunnelsById m) tid"

text \<open>
  \<open>closeTunnel\<close>. \<open>indexOf\<close> and \<open>splice(index, 1)\<close> remove the first occurrence of the
  tunnel from the array of its connection, which is \<^const>\<open>remove1\<close>.
\<close>

definition closeTunnel :: "string \<Rightarrow> string \<Rightarrow> TunnelManager \<Rightarrow> TunnelManager" where
  "closeTunnel tid reason m =
     (case map_of (tunnelsById m) tid of
        None \<Rightarrow> m
      | Some r \<Rightarrow>
          let tunnel = heap m ! r;
              rejections = map (\<lambda>(requestId, pending). Reject (handle pending) ''Tunnel closed'')
                             (pendingRequests tunnel);
              byWs = (case map_of (tunnelsByWs m) (ws tunnel) of
                        None \<Rightarrow> tunnelsByWs m
                      | Some wsTunnels \<Rightarrow>
                          let wsTunnels' = remove1 r wsTunnels in
                          if length wsTunnels' = 0 then AList.delete (ws tunnel) (tunnelsByWs m)
                          else AList.update (ws tunnel) wsTunnels' (tunnelsByWs m))
          in m\<lparr>heap := (heap m)[r := tunnel\<lparr>pendingRequests := []\<rparr>],
               tunnelsBySubdomain := AList.delete (subdomain tunnel) (tunnelsBySubdomain m),
               tunnelsById := AList.delete tid (tunnelsById m),
               tunnelsByWs := byWs,
               emitted := emitted m @ [TunnelClosed r reason],
               called := called m @ rejections\<rparr>)"

text \<open>\<open>closeTunnelsForWs\<close> and \<open>closeAll\<close> iterate over a snapshot taken before the first close.\<close>

definition closeTunnelsForWs :: "ws \<Rightarrow> string \<Rightarrow> TunnelManager \<Rightarrow> TunnelManager" where
  "closeTunnelsForWs w reason m =
     fold (\<lambda>r. closeTunnel (tunnelId (heap m ! r)) reason) (getTunnelsByWs m w) m"

definition closeAll :: "TunnelManager \<Rightarrow> TunnelManager" where
  "closeAll m = fold (\<lambda>tid. closeTunnel tid ''Server shutdown'') (map fst (tunnelsById m)) m"

definition getTunnelCount :: "TunnelManager \<Rightarrow> nat" where
  "getTunnelCount m = length (tunnelsById m)"

section \<open>Runs of the tunnel manager\<close>

text \<open>
  The four operations that change the registry, with the arguments of each call, and the
  state after a sequence of them. A registration whose generator loop has not ended within
  the supplied results has no state after it.
\<close>

datatype op =
    RegisterTunnel ws "string option" nat "(string \<times> string) list" "string list" string int
  | CloseTunnel string string
  | CloseTunnelsForWs ws string
  | CloseAll

fun step :: "op \<Rightarrow> TunnelManager \<Rightarrow> TunnelManager option" where
  "step (RegisterTunnel w requested port info draws tid now) m =
     map_option snd (registerTunnel w requested port info draws tid now m)"
| "step (CloseTunnel tid reason) m = Some (closeTunnel tid reason m)"
| "step (CloseTunnelsForWs w reason) m = Some (closeTunnelsForWs w reason m)"
| "step CloseAll m = Some (closeAll m)"

fun run :: "op list \<Rightarrow> TunnelManager \<Rightarrow> TunnelManager option" where
  "run [] m = Some m"
| "run (x # xs) m = (case step x m of None \<Rightarrow> None | Some m' \<Rightarrow> run xs m')"

text \<open>
  \<open>generateTunnelId()\<close> is not compared with the identifiers in use. A run is free of
  collisions when no registration draws the identifier of a tunnel that is live at that
  moment.
\<close>

fun fresh_id :: "op \<Rightarrow> TunnelManager \<Rightarrow> bool" where
  "fresh_id (RegisterTunnel w requested port info draws tid now) m = (\<not> has (tunnelsById m) tid)"
| "fresh_id _ m = True"

fun collision_free :: "op list \<Rightarrow> TunnelManager \<Rightarrow> bool" where
  "collision_free [] m = True"
| "collision_free (x # xs) m =
     (fresh_id x m \<and> (case step x m of None \<Rightarrow> True | Some m' \<Rightarrow> collision_free xs m'))"

text \<open>
  \<open>generateSubdomain\<close> is \<^verbatim>\<open>customAlphabet('abcdefghijklmnopqrstuvwxyz0123456789', 8)\<close>:
  each of its results has eight characters of that alphabet.
\<close>

definition generated_subdomain :: "string \<Rightarrow> bool" where
  "generated_subdomain s = (length s = 8 \<and> list_all is_lower_alnum s)"

fun generator_draws :: "op \<Rightarrow> bool" where
  "generator_draws (RegisterTunnel w requested port info draws tid now) =
     list_all generated_subdomain draws"
| "generator_draws _ = True"

section \<open>Agreement of the three indices\<close>

text \<open>
  The tunnels that are live: those some index refers to. The indices agree when each live
  tunnel is found in all three under its own subdomain, identifier and connection, and
  every entry of an index is filed under the key of the tunnel it refers to.
\<close>

definition live_tunnels :: "TunnelManager \<Rightarrow> ref list" where
  "live_tunnels m =
     map snd (tunnelsBySubdomain m) @ map snd (tunnelsById m) @ concat (map snd (tunnelsByWs m))"

definition indexed_everywhere :: "TunnelManager \<Rightarrow> ref \<Rightarrow> bool" where
  "indexed_everywhere m r =
     (map_of (tunnelsBySubdomain m) (subdomain (heap m ! r)) = Some r
      \<and> map_of (tunnelsById m) (tunnelId (heap m ! r)) = Some r
      \<and> r \<in> set (getTunnelsByWs m (ws (heap m ! r))))"

definition indices_agree :: "TunnelManager \<Rightarrow> bool" where
  "indices_agree m =
     (list_all (indexed_everywhere m) (live_tunnels m)
      \<and> list_all (\<lambda>(s, r). subdomain (heap m ! r) = s) (tunnelsBySubdomain m)
      \<and> list_all (\<lambda>(i, r). tunnelId (heap m ! r) = i) (tunnelsById m)
      \<and> list_all (\<lambda>(w, rs). list_all (\<lambda>r. ws (heap m ! r) = w) rs) (tunnelsByWs m))"

text \<open>
  The invariant of the registry that the operations maintain: the keys of each map are
  distinct; an entry of the subdomain map refers to a stored tunnel with that subdomain
  that the identifier map knows; an entry of the identifier map refers to a stored tunnel
  with that identifier that the other two maps know; an array of the connection map is
  not empty, has no duplicates and holds tunnels of that connection that the identifier
  map knows.
\<close>

definition keys_distinct :: "TunnelManager \<Rightarrow> bool" where
  "keys_distinct m =
     (distinct (map fst (tunnelsBySubdomain m))
      \<and> distinct (map fst (tunnelsById m))
      \<and> distinct (map fst (tunnelsByWs m)))"

definition bySubdomain_ok :: "TunnelManager \<Rightarrow> bool" where
  "bySubdomain_ok m =
     (\<forall>s r. map_of (tunnelsBySubdomain m) s = Some r \<longrightarrow>
            r < length (heap m) \<and> subdomain (heap m ! r) = s
            \<and> map_of (tunnelsById m) (tunnelId (heap m ! r)) = Some r)"

definition byId_ok :: "TunnelManager \<Rightarrow> bool" where
  "byId_ok m =
     (\<forall>i r. map_of (tunnelsById m) i = Some r \<longrightarrow>
            r < length (heap m) \<and> tunnelId (heap m ! r) = i
            \<and> map_of (tunnelsBySubdomain m) (subdomain (heap m ! r)) = Some r
            \<and> r \<in> set (getTunnelsByWs m (ws (heap m ! r))))"

definition byWs_ok :: "TunnelManager \<Rightarrow> bool" where
  "byWs_ok m =
     (\<forall>w rs. map_of (tunnelsByWs m) w = Some rs \<longrightarrow>
            rs \<noteq> [] \<and> distinct rs
            \<and> (\<forall>r \<in> set rs. r < length (heap m) \<and> ws (heap m ! r) = w
                  \<and> map_of (tunnelsById m) (tunnelId (heap m ! r)) = Some r))"

definition registry_inv :: "TunnelManager \<Rightarrow> bool" where
  "registry_inv m = (keys_distinct m \<and> bySubdomain_ok m \<and> byId_ok m \<and> byWs_ok m)"


text \<open>The state after a registration that succeeds with the subdomain \<open>sub\<close>.\<close>

definition registered :: "ws \<Rightarrow> nat \<Rightarrow> (string \<times> string) list \<Rightarrow> string \<Rightarrow> int \<Rightarrow> string \<Rightarrow> TunnelManager \<Rightarrow> TunnelManager" where
  "registered w port info tid now sub m =
     m\<lparr>heap := heap m @ [new_Tunnel tid sub w port info now],
       tunnelsBySubdomain := AList.update sub (length (heap m)) (tunnelsBySubdomain m),
       tunnelsById := AList.update tid (length (heap m)) (tunnelsById m),
       tunnelsByWs := AList.update w (getTunnelsByWs m w @ [length (heap m)]) (tunnelsByWs m),
       emitted := emitted m @ [TunnelCreated (length (heap m))]\<rparr>"


text \<open>Every subdomain in the registry is its own lowercase form.\<close>

definition keys_lowercase :: "TunnelManager \<Rightarrow> bool" where
  "keys_lowercase m = (\<forall>d r. map_of (tunnelsBySubdomain m) d = Some r \<longrightarrow> toLowerCase d = d)"

text \<open>Ten registrations on connection 1, each with a generated subdomain.\<close>

definition ten_registrations :: "op list" where
  "ten_registrations =
     map (\<lambda>s. RegisterTunnel 1 None 8080 [] [s] (''AAAA'' @ s) 0)
       [''aaaaaaa0'', ''aaaaaaa1'', ''aaaaaaa2'', ''aaaaaaa3'', ''aaaaaaa4'',
        ''aaaaaaa5'', ''aaaaaaa6'', ''aaaaaaa7'', ''aaaaaaa8'', ''aaaaaaa9'']"



section \<open>Protocol messages\<close>

text \<open>
  A parsed JSON value. An object is the list of its properties, one entry for each key, in
  the order of \<open>Object.keys\<close>. A number is an integer here; the code only asks whether
  the \<open>type\<close> of a message is a number at all and whether it is zero.

  A JavaScript value read from a property is a JSON value or \<open>undefined\<close>.
\<close>

datatype json =
    JNull
  | JBool bool
  | JNum int
  | JStr string
  | JArr "json list"
  | JObj "(string \<times> json) list"

datatype jsvalue = JSUndefined | JSValue json

fun truthy :: "jsvalue \<Rightarrow> bool" where
  "truthy JSUndefined = False"
| "truthy (JSValue JNull) = False"
| "truthy (JSValue (JBool b)) = b"
| "truthy (JSValue (JNum n)) = (n \<noteq> 0)"
| "truthy (JSValue (JStr s)) = (s \<noteq> [])"
| "truthy (JSValue (JArr xs)) = True"
| "truthy (JSValue (JObj fs)) = True"

text \<open>
  Reading the property \<open>key\<close>: of \<open>null\<close> it throws a \<open>TypeError\<close> (the value \<open>None\<close>);
  of an object it is the property or \<open>undefined\<close>; a number, a boolean, a string and an
  array have no property of the names the code reads.
\<close>

fun get_property :: "json \<Rightarrow> string \<Rightarrow> jsvalue option" where
  "get_property JNull key = None"
| "get_property (JObj fs) key =
     Some (case map_of fs key of None \<Rightarrow> JSUndefined | Some v \<Rightarrow> JSValue v)"
| "get_property _ key = Some JSUndefined"

text \<open>The object \<open>MessageType\<close>, its keys in the order of the source.\<close>

definition MessageType :: "(string \<times> string) list" where
  "MessageType =
     [(''TUNNEL_REGISTER'', ''tunnel:register''),
      (''TUNNEL_REGISTERED'', ''tunnel:registered''),
      (''TUNNEL_CLOSE'', ''tunnel:close''),
      (''TUNNEL_CLOSED'', ''tunnel:closed''),
      (''HTTP_REQUEST'', ''http:request''),
      (''HTTP_RESPONSE'', ''http:response''),
      (''HTTP_ERROR'', ''http:error''),
      (''PING'', ''ping''),
      (''PONG'', ''pong''),
      (''ERROR'', ''error''),
      (''INSPECT_REQUEST'', ''inspect:request''),
      (''INSPECT_RESPONSE'', ''inspect:response''),
      (''REPLAY_REQUEST'', ''replay:request''),
      (''REPLAY_RESPONSE'', ''replay:response'')]"

text \<open>\<^verbatim>\<open>MessageType[key]\<close>, where \<open>key\<close> may be \<open>undefined\<close>.\<close>

definition MessageType_at :: "string option \<Rightarrow> jsvalue" where
  "MessageType_at key =
     (case key of
        None \<Rightarrow> JSUndefined
      | Some k \<Rightarrow> (case map_of MessageType k of None \<Rightarrow> JSUndefined | Some v \<Rightarrow> JSValue (JStr v)))"

text \<open>
  \<open>parseMessage\<close>. \<open>JSON.parse\<close> is an argument: it gives the parsed value, or \<open>None\<close>
  when it throws a \<open>SyntaxError\<close>. The data is the text of the message (a \<open>Buffer\<close> is
  decoded first). Every exception in the body is caught and makes the result \<open>null\<close>,
  which is \<open>None\<close> here.
\<close>

definition parseMessage :: "(string \<Rightarrow> json option) \<Rightarrow> string \<Rightarrow> json option" where
  "parseMessage JSON_parse data =
     (case JSON_parse data of
        None \<Rightarrow> None
      | Some parsed \<Rightarrow>
          (case get_property parsed ''type'' of
             None \<Rightarrow> None
           | Some ty \<Rightarrow>
               if \<not> truthy ty
                  \<or> \<not> truthy (MessageType_at
                         (find (\<lambda>k. MessageType_at (Some k) = ty) (map fst MessageType)))
               then None
               else Some parsed))"

definition createErrorMessage :: "string \<Rightarrow> string \<Rightarrow> int \<Rightarrow> json" where
  "createErrorMessage error code now =
     JObj [(''type'', JStr ''error''),
           (''payload'', JObj [(''error'', JStr error), (''code'', JStr code),
                               (''timestamp'', JNum now)])]"

definition createPongMessage :: "jsvalue \<Rightarrow> int \<Rightarrow> json" where
  "createPongMessage pingTimestamp now =
     JObj [(''type'', JStr ''pong''),
           (''payload'',
             JObj ((case pingTimestamp of JSUndefined \<Rightarrow> [] | JSValue v \<Rightarrow> [(''pingTimestamp'', v)])
                   @ [(''timestamp'', JNum now)]))]"

section \<open>WebSocket handler\<close>

text \<open>
  What \<open>handleMessage\<close> does with one message: the messages it sends on the connection,
  the handler it calls with the payload, or the \<open>TypeError\<close> it throws. \<open>send\<close> writes
  only when the connection is open (\<open>readyState\<close> 1). No branch closes the connection.
\<close>

datatype handled =
    Sent json
  | HandleTunnelRegister jsvalue
  | HandleTunnelClose jsvalue
  | HandleHttpResponse jsvalue
  | HandleHttpError jsvalue
  | ThrowsTypeError

definition send :: "nat \<Rightarrow> json \<Rightarrow> handled list" where
  "send readyState message = (if readyState = 1 then [Sent message] else [])"

text \<open>The text of a value in a template literal, for the values a message type can be.\<close>

fun type_text :: "jsvalue \<Rightarrow> string" where
  "type_text (JSValue (JStr s)) = s"
| "type_text _ = []"

definition handleMessage :: "(string \<Rightarrow> json option) \<Rightarrow> nat \<Rightarrow> int \<Rightarrow> string \<Rightarrow> handled list" where
  "handleMessage JSON_parse readyState now data =
     (case parseMessage JSON_parse data of
        None \<Rightarrow> send readyState (createErrorMessage ''Invalid message format'' ''INVALID_MESSAGE'' now)
      | Some message \<Rightarrow>
          (case (get_property message ''type'', get_property message ''payload'') of
             (Some ty, Some payload) \<Rightarrow>
               if ty = JSValue (JStr ''tunnel:register'') then [HandleTunnelRegister payload]
               else if ty = JSValue (JStr ''tunnel:close'') then [HandleTunnelClose payload]
               else if ty = JSValue (JStr ''http:response'') then [HandleHttpResponse payload]
               else if ty = JSValue (JStr ''http:error'') then [HandleHttpError payload]
               else if ty = JSValue (JStr ''ping'') then
                 (case payload of
                    JSUndefined \<Rightarrow> [ThrowsTypeError]
                  | JSValue p \<Rightarrow>
                      (case get_property p ''timestamp'' of
                         None \<Rightarrow> [ThrowsTypeError]
                       | Some ts \<Rightarrow> send readyState (createPongMessage ts now)))
               else if ty = JSValue (JStr ''pong'') then []
               else send readyState
                      (createErrorMessage (''Unknown message type: '' @ type_text ty)
                         ''UNKNOWN_MESSAGE'' now)
           | _ \<Rightarrow> [ThrowsTypeError]))"

text \<open>
  The \<open>type\<close> of a parsed value when it is an object whose \<open>type\<close> property is a
  string, and the seven message types the specification defines (\<open>ping\<close> and \<open>pong\<close>
  count as one).
\<close>

definition type_field :: "json \<Rightarrow> string option" where
  "type_field parsed =
     (case parsed of
        JObj fs \<Rightarrow> (case map_of fs ''type'' of Some (JStr t) \<Rightarrow> Some t | _ \<Rightarrow> None)
      | _ \<Rightarrow> None)"

definition specified_types :: "string list" where
  "specified_types =
     [''tunnel:register'', ''tunnel:registered'', ''tunnel:close'', ''http:request'',
      ''http:response'', ''http:error'', ''ping'', ''pong'']"


section \<open>Inspector service\<close>

text \<open>
  The data of a request and of a response as the forwarder hands them to the inspector.
  Headers are the entries of the headers object in the order of \<open>Object.entries\<close>. A body
  that is \<open>null\<close> or absent is \<open>None\<close>. A field of the response that the caller leaves
  out is \<open>None\<close>. The field \<open>method\<close> of the request is \<open>httpMethod\<close> here. The fields of the response carry the prefix \<open>response\<close> where the name is
  taken by the request; those of the captured exchange carry the prefix \<open>traffic\<close> where the
  name is taken by the tunnel.
\<close>

record Request =
  httpMethod :: string
  path :: string
  headers :: "(string \<times> string) list"
  body :: "string option"
  query :: "(string \<times> string) list"
  timestamp :: int
  clientIp :: "string option"

record Response =
  statusCode :: nat
  responseHeaders :: "(string \<times> string) list option"
  responseBody :: "string option"
  error :: "string option"
  responseTimestamp :: int

record InspectedTraffic =
  requestId :: string
  trafficTunnelId :: string
  trafficSubdomain :: string
  request :: Request
  response :: "Response option"
  responseTime :: "int option"
  trafficCreatedAt :: int

definition new_InspectedTraffic :: "string \<Rightarrow> string \<Rightarrow> string \<Rightarrow> Request \<Rightarrow> int \<Rightarrow> InspectedTraffic" where
  "new_InspectedTraffic rid tid sub req now =
     \<lparr>requestId = rid, trafficTunnelId = tid, trafficSubdomain = sub, request = req,
      response = None, responseTime = None, trafficCreatedAt = now\<rparr>"


text \<open>
  \<open>toCurl\<close>. The parts are pushed in the order of the source and joined with a space, a
  backslash, a newline and two spaces. \<^verbatim>\<open>replace(/'/g, "'\\''")\<close> puts the four characters
  quote, backslash, quote, quote in the place of every quote.
\<close>

definition quote :: char where
  "quote = CHR 0x27"

definition backslash :: char where
  "backslash = CHR 0x5C"

definition newline :: char where
  "newline = CHR 0x0A"

fun join :: "string \<Rightarrow> string list \<Rightarrow> string" where
  "join sep [] = []"
| "join sep [x] = x"
| "join sep (x # y # ys) = x @ sep @ join sep (y # ys)"

fun replace_quotes :: "string \<Rightarrow> string" where
  "replace_quotes [] = []"
| "replace_quotes (c # cs) =
     (if c = quote then [quote, backslash, quote, quote] @ replace_quotes cs
      else c # replace_quotes cs)"

fun push_headers :: "string list \<Rightarrow> (string \<times> string) list \<Rightarrow> string list" where
  "push_headers parts [] = parts"
| "push_headers parts ((key, value) # hs) =
     (if toLowerCase key \<notin> set [''host'', ''content-length'']
      then push_headers (parts @ [''-H '' @ [quote] @ key @ '': '' @ value @ [quote]]) hs
      else push_headers parts hs)"

definition toCurl_parts :: "InspectedTraffic \<Rightarrow> string list" where
  "toCurl_parts t =
     (let parts = [''curl''];
          parts = (if httpMethod (request t) \<noteq> ''GET''
                   then parts @ [''-X '' @ httpMethod (request t)] else parts);
          parts = push_headers parts (headers (request t));
          parts = (case body (request t) of
                     Some b \<Rightarrow>
                       if b \<noteq> [] then parts @ [''-d '' @ [quote] @ replace_quotes b @ [quote]]
                       else parts
                   | None \<Rightarrow> parts);
          url = ''https://'' @ trafficSubdomain t @ ''.example.com'' @ path (request t)
      in parts @ [[quote] @ url @ [quote]])"

definition toCurl :: "InspectedTraffic \<Rightarrow> string" where
  "toCurl t = join ([CHR '' '', backslash, newline] @ ''  '') (toCurl_parts t)"

text \<open>
  The service. The captured exchanges are objects shared by the global buffer, the buffer of
  their tunnel and the map by request identifier; they are kept in a store and the three
  indices hold their addresses. The events are kept in the order they are emitted, each with
  the exchange as it was then.
\<close>

datatype inspector_event = RequestEvent InspectedTraffic | ResponseEvent InspectedTraffic

record InspectorService =
  maxStoredRequests :: nat
  retentionMinutes :: nat
  objects :: "InspectedTraffic list"
  trafficByTunnel :: "(string \<times> ref list) list"
  allTraffic :: "ref list"
  trafficByRequestId :: "(string \<times> ref) list"
  inspector_emitted :: "inspector_event list"










definition getCurlCommand :: "InspectorService \<Rightarrow> string \<Rightarrow> string option" where
  "getCurlCommand s rid =
     (case map_of (trafficByRequestId s) rid of
        None \<Rightarrow> None
      | Some r \<Rightarrow> Some (toCurl (objects s ! r)))"



text \<open>
  The exchange of the curl scenario of the specification: a \<open>POST\<close> to \<open>/x\<close> on the
  subdomain \<open>demo1\<close> with a JSON body, and a \<open>GET\<close> on the same tunnel.
\<close>

definition demo_post :: Request where
  \<open>demo_post =
     \<lparr>httpMethod = ''POST'', path = ''/x'',
      headers = [(''host'', ''demo1.localhost:3000''), (''content-type'', ''application/json''),
                 (''authorization'', ''Bearer s3cret''), (''content-length'', ''7'')],
      body = Some ''{"a":1}'', query = [], timestamp = 100, clientIp = Some ''127.0.0.1''\<rparr>\<close>



section \<open>Request forwarder\<close>





















section \<open>The matcher decides the language\<close>

lemma nullable_lang: "nullable r \<longleftrightarrow> [] \<in> lang r"
  by (induction r) (auto intro: star.star_nil)

lemma star_cons_split:
  assumes "x \<in> star A" and "x = c # w"
  shows "\<exists>u v. w = u @ v \<and> c # u \<in> A \<and> v \<in> star A"
  using assms
proof (induction arbitrary: w rule: star.induct)
  case star_nil
  then show ?case by simp
next
  case (star_app u v)
  show ?case
  proof (cases u)
    case Nil
    with star_app show ?thesis by simp
  next
    case (Cons a u')
    with star_app.prems have "a = c" and "w = u' @ v" by simp_all
    with Cons star_app.hyps show ?thesis by blast
  qed
qed

lemma star_cons_iff:
  "c # w \<in> star A \<longleftrightarrow> (\<exists>u v. w = u @ v \<and> c # u \<in> A \<and> v \<in> star A)"
proof
  assume "c # w \<in> star A"
  then show "\<exists>u v. w = u @ v \<and> c # u \<in> A \<and> v \<in> star A"
    by (rule star_cons_split) simp
next
  assume "\<exists>u v. w = u @ v \<and> c # u \<in> A \<and> v \<in> star A"
  then obtain u v where "w = u @ v" "c # u \<in> A" "v \<in> star A" by blast
  then show "c # w \<in> star A"
    using star.star_app [of "c # u" A v] by simp
qed

lemma lang_deriv: "w \<in> lang (deriv c r) \<longleftrightarrow> c # w \<in> lang r"
proof (induction r arbitrary: w)
  case (Seq r s)
  then show ?case
    by (auto simp: nullable_lang Cons_eq_append_conv)
next
  case (Star r)
  then show ?case by (auto simp: star_cons_iff)
qed auto

lemma regex_test_lang: "regex_test r s \<longleftrightarrow> s \<in> lang r"
  by (induction s arbitrary: r) (simp_all add: nullable_lang lang_deriv)

lemma star_class_iff: "w \<in> star {[c] | c. P c} \<longleftrightarrow> list_all P w"
proof
  assume "w \<in> star {[c] | c. P c}"
  then show "list_all P w" by (induction rule: star.induct) auto
next
  assume "list_all P w"
  then show "w \<in> star {[c] | c. P c}"
  proof (induction w)
    case Nil
    show ?case by (rule star.star_nil)
  next
    case (Cons a w)
    then have "[a] \<in> {[c] | c. P c}" and "w \<in> star {[c] | c. P c}" by simp_all
    then have "[a] @ w \<in> star {[c] | c. P c}" by (rule star.star_app)
    then show ?case by simp
  qed
qed

lemma lang_SeqI: "u \<in> lang r \<Longrightarrow> v \<in> lang s \<Longrightarrow> u @ v \<in> lang (Seq r s)"
  by auto

lemma lang_Class_Seq:
  "s \<in> lang (Seq (Class rs) r) \<longleftrightarrow> (\<exists>a v. s = a # v \<and> in_class rs a \<and> v \<in> lang r)"
proof
  assume "s \<in> lang (Seq (Class rs) r)"
  then show "\<exists>a v. s = a # v \<and> in_class rs a \<and> v \<in> lang r" by auto
next
  assume "\<exists>a v. s = a # v \<and> in_class rs a \<and> v \<in> lang r"
  then obtain a v where s: "s = a # v" and a: "in_class rs a" and v: "v \<in> lang r" by blast
  from a have "[a] \<in> lang (Class rs)" by simp
  from lang_SeqI [OF this v] s show "s \<in> lang (Seq (Class rs) r)" by simp
qed

lemma lang_Star_Class_Seq:
  "v \<in> lang (Seq (Star (Class rs)) (Class rs')) \<longleftrightarrow>
     (\<exists>m b. v = m @ [b] \<and> list_all (in_class rs) m \<and> in_class rs' b)"
proof
  assume "v \<in> lang (Seq (Star (Class rs)) (Class rs'))"
  then show "\<exists>m b. v = m @ [b] \<and> list_all (in_class rs) m \<and> in_class rs' b"
    by (auto simp: star_class_iff)
next
  assume "\<exists>m b. v = m @ [b] \<and> list_all (in_class rs) m \<and> in_class rs' b"
  then obtain m b where v: "v = m @ [b]" and m: "list_all (in_class rs) m" and b: "in_class rs' b"
    by blast
  from m have "m \<in> lang (Star (Class rs))" by (simp add: star_class_iff)
  moreover from b have "[b] \<in> lang (Class rs')" by simp
  ultimately show "v \<in> lang (Seq (Star (Class rs)) (Class rs'))"
    unfolding v by (rule lang_SeqI)
qed

section \<open>Subdomain validation\<close>

lemma in_class_lower_alnum: "in_class lower_alnum c = is_lower_alnum c"
  unfolding in_class_def lower_alnum_def is_lower_alnum_def in_range_def
  by (cases c) simp

lemma in_class_lower_alnum_dash: "in_class lower_alnum_dash c = is_label_char c"
  unfolding in_class_def lower_alnum_dash_def is_label_char_def is_lower_alnum_def in_range_def
  by (cases c) simp

lemma lang_SUBDOMAIN_PATTERN:
  "s \<in> lang SUBDOMAIN_PATTERN \<longleftrightarrow>
     (\<exists>a m b. s = a # m @ [b] \<and> is_lower_alnum a \<and> list_all is_label_char m \<and> is_lower_alnum b)"
proof -
  have eq: "in_class lower_alnum = is_lower_alnum" "in_class lower_alnum_dash = is_label_char"
    by (auto simp: in_class_lower_alnum in_class_lower_alnum_dash)
  show ?thesis
    unfolding SUBDOMAIN_PATTERN_def lang_Class_Seq lang_Star_Class_Seq eq by blast
qed

lemma subdomain_grammar_iff:
  "subdomain_grammar s \<longleftrightarrow>
     (\<exists>a m b. s = a # m @ [b] \<and> is_lower_alnum a \<and> list_all is_label_char m \<and> is_lower_alnum b)"
proof
  assume g: "subdomain_grammar s"
  then obtain a t where s: "s = a # t" and t: "t \<noteq> []"
    and rest: "is_lower_alnum a" "list_all is_label_char (butlast t)" "is_lower_alnum (last t)"
    by (auto simp: subdomain_grammar_def split: list.splits)
  from t have "t = butlast t @ [last t]" by simp
  with s rest show "\<exists>a m b. s = a # m @ [b] \<and> is_lower_alnum a \<and> list_all is_label_char m \<and> is_lower_alnum b"
    by blast
next
  assume "\<exists>a m b. s = a # m @ [b] \<and> is_lower_alnum a \<and> list_all is_label_char m \<and> is_lower_alnum b"
  then show "subdomain_grammar s"
    by (auto simp: subdomain_grammar_def)
qed

lemma SUBDOMAIN_PATTERN_test: "regex_test SUBDOMAIN_PATTERN s = subdomain_grammar s"
  by (simp only: regex_test_lang lang_SUBDOMAIN_PATTERN subdomain_grammar_iff)

lemma isValidSubdomain_iff:
  "isValidSubdomain s \<longleftrightarrow> 4 \<le> length s \<and> length s \<le> 32 \<and> subdomain_grammar s"
  by (auto simp: isValidSubdomain_def SUBDOMAIN_MIN_LENGTH_def SUBDOMAIN_MAX_LENGTH_def
      SUBDOMAIN_PATTERN_test)

lemma subdomain_grammar_label_chars: "subdomain_grammar s \<Longrightarrow> list_all is_label_char s"
  by (auto simp: subdomain_grammar_iff is_label_char_def)

lemma subdomain_grammar_no_leading_dash: "\<not> subdomain_grammar (CHR ''-'' # s)"
  by (simp add: subdomain_grammar_def is_lower_alnum_def)

lemma subdomain_grammar_no_trailing_dash: "\<not> subdomain_grammar (s @ ''-'')"
  by (cases s) (simp_all add: subdomain_grammar_def is_lower_alnum_def)

lemma subdomain_grammar_interior_dash:
  assumes "u \<noteq> []" "v \<noteq> []" "list_all is_lower_alnum u" "list_all is_lower_alnum v"
  shows "subdomain_grammar (u @ CHR ''-'' # v)"
proof -
  from assms obtain a u' where u: "u = a # u'" by (cases u) auto
  from assms have v: "v = butlast v @ [last v]" by simp
  have mid: "list_all is_label_char (u' @ CHR ''-'' # butlast v)"
    using assms u by (auto simp: is_label_char_def list_all_iff dest: in_set_butlastD)
  have "u @ CHR ''-'' # v = a # (u' @ CHR ''-'' # butlast v) @ [last v]"
    using u v by (metis append_Cons append_assoc)
  moreover have "is_lower_alnum a" using assms u by simp
  moreover have "is_lower_alnum (last v)" using assms by (simp add: list_all_iff)
  ultimately show ?thesis
    unfolding subdomain_grammar_iff using mid by blast
qed

text \<open>
  C9. \<open>isValidSubdomain\<close> accepts exactly the strings of length 4 to 32 that match the
  subdomain grammar \<^verbatim>\<open>[a-z0-9][a-z0-9-]*[a-z0-9]\<close>. At the boundaries: every string of
  length 3 is rejected and a grammatical one of length 4 accepted; a grammatical string of
  length 32 is accepted and every string of length 33 rejected; a label with a leading or a
  trailing dash is rejected; a label with a dash between two non-empty runs of lowercase
  letters and digits is accepted when its length is in range.
\<close>

theorem isValidSubdomain_exact:
  "(isValidSubdomain s \<longleftrightarrow> 4 \<le> length s \<and> length s \<le> 32 \<and> subdomain_grammar s)
   \<and> (length s3 = 3 \<longrightarrow> \<not> isValidSubdomain s3)
   \<and> (length s4 = 4 \<and> subdomain_grammar s4 \<longrightarrow> isValidSubdomain s4)
   \<and> (length s32 = 32 \<and> subdomain_grammar s32 \<longrightarrow> isValidSubdomain s32)
   \<and> (length s33 = 33 \<longrightarrow> \<not> isValidSubdomain s33)
   \<and> \<not> isValidSubdomain (CHR ''-'' # t)
   \<and> \<not> isValidSubdomain (t @ ''-'')
   \<and> (u \<noteq> [] \<and> v \<noteq> [] \<and> list_all is_lower_alnum u \<and> list_all is_lower_alnum v
        \<and> 4 \<le> length u + 1 + length v \<and> length u + 1 + length v \<le> 32
      \<longrightarrow> isValidSubdomain (u @ CHR ''-'' # v))"
  by (simp add: isValidSubdomain_iff subdomain_grammar_no_leading_dash
      subdomain_grammar_no_trailing_dash subdomain_grammar_interior_dash)

theorem isValidSubdomain_exact_witness:
  "\<not> isValidSubdomain ''abc''
   \<and> isValidSubdomain ''abcd''
   \<and> isValidSubdomain ''abcdefghijklmnopqrstuvwxyz012345''
   \<and> \<not> isValidSubdomain ''abcdefghijklmnopqrstuvwxyz0123456''
   \<and> \<not> isValidSubdomain ''-test''
   \<and> \<not> isValidSubdomain ''test-''
   \<and> isValidSubdomain ''my-app''"
proof -
  have g4: "subdomain_grammar ''abcd''"
    by (simp add: subdomain_grammar_def is_lower_alnum_def is_label_char_def)
  have g32: "subdomain_grammar ''abcdefghijklmnopqrstuvwxyz012345''"
    by (simp add: subdomain_grammar_def is_lower_alnum_def is_label_char_def)
  have lu: "list_all is_lower_alnum ''my''" and lv: "list_all is_lower_alnum ''app''"
    by (simp_all add: is_lower_alnum_def)
  show ?thesis
    using isValidSubdomain_exact [of "''abcd''" "''abc''" "''abcd''"
        "''abcdefghijklmnopqrstuvwxyz012345''" "''abcdefghijklmnopqrstuvwxyz0123456''"
        "''test''" "''my''" "''app''"] g4 g32 lu lv
    by simp
qed

section \<open>Registration\<close>

lemma toLowerChar_lower_alnum: "is_lower_alnum c \<Longrightarrow> toLowerChar c = c"
  unfolding is_lower_alnum_def toLowerChar_def by (cases c) auto

lemma toLowerChar_label_char: "is_label_char c \<Longrightarrow> toLowerChar c = c"
  unfolding is_label_char_def is_lower_alnum_def toLowerChar_def by (cases c) auto

lemma toLowerCase_label: "list_all is_label_char s \<Longrightarrow> toLowerCase s = s"
  by (induction s) (simp_all add: toLowerCase_def toLowerChar_label_char)

lemma isValidSubdomain_lowercase: "isValidSubdomain s \<Longrightarrow> toLowerCase s = s"
  by (simp add: isValidSubdomain_iff subdomain_grammar_label_chars toLowerCase_label)

lemma isValidSubdomain_nonempty: "isValidSubdomain s \<Longrightarrow> s \<noteq> []"
  by (auto simp: isValidSubdomain_def)

lemma generate_loop_Some:
  "generate_loop m draws = Some sub \<Longrightarrow>
     sub \<in> set draws \<and> \<not> has (tunnelsBySubdomain m) sub \<and> sub \<notin> set reservedSubdomains"
  by (induction draws) (auto split: if_splits)

lemma update_twice: "AList.update k v (AList.update k v' al) = AList.update k v al"
  by (induction al) auto

lemma registerTunnel_Failure:
  assumes "registerTunnel w req port info draws tid now m = Some (Failure msg code, m')"
  shows "m' = m"
  using assms unfolding registerTunnel_def
  by (auto simp: Let_def split: option.splits sum.splits if_splits)

lemma registerTunnel_Success:
  assumes "registerTunnel w req port info draws tid now m = Some (Success r, m')"
  shows "\<exists>sub. r = length (heap m) \<and> m' = registered w port info tid now sub m
           \<and> \<not> has (tunnelsBySubdomain m) sub \<and> sub \<notin> set reservedSubdomains
           \<and> length (getTunnelsByWs m w) < MAX_TUNNELS_PER_CLIENT
           \<and> (case req of
                Some requested \<Rightarrow>
                  if requested \<noteq> [] then isValidSubdomain requested \<and> sub = toLowerCase requested
                  else generate_loop m draws = Some sub
              | None \<Rightarrow> generate_loop m draws = Some sub)"
  using assms unfolding registerTunnel_def registered_def
  by (auto simp: Let_def getTunnelsByWs_def has_def update_twice update_conv'
      split: option.splits sum.splits if_splits dest: generate_loop_Some)

section \<open>The registry invariant\<close>

lemma registry_inv_new: "registry_inv new_TunnelManager"
  by (simp add: registry_inv_def keys_distinct_def bySubdomain_ok_def byId_ok_def byWs_ok_def
      new_TunnelManager_def)

lemma new_Tunnel_keys [simp]:
  "tunnelId (new_Tunnel tid sub w port info now) = tid"
  "subdomain (new_Tunnel tid sub w port info now) = sub"
  "ws (new_Tunnel tid sub w port info now) = w"
  "pendingRequests (new_Tunnel tid sub w port info now) = []"
  by (simp_all add: new_Tunnel_def)

lemma registry_inv_distinct:
  assumes "registry_inv m"
  shows "distinct (map fst (tunnelsBySubdomain m))" "distinct (map fst (tunnelsById m))"
    "distinct (map fst (tunnelsByWs m))"
proof -
  from assms have "keys_distinct m" unfolding registry_inv_def by (rule conjunct1)
  then show "distinct (map fst (tunnelsBySubdomain m))" "distinct (map fst (tunnelsById m))"
    "distinct (map fst (tunnelsByWs m))"
    unfolding keys_distinct_def by blast+
qed

lemma registry_inv_bySubdomain:
  assumes "registry_inv m" "map_of (tunnelsBySubdomain m) s = Some r"
  shows "r < length (heap m)" "subdomain (heap m ! r) = s"
    "map_of (tunnelsById m) (tunnelId (heap m ! r)) = Some r"
proof -
  from assms(1) have "bySubdomain_ok m" unfolding registry_inv_def by blast
  with assms(2) show "r < length (heap m)" "subdomain (heap m ! r) = s"
    "map_of (tunnelsById m) (tunnelId (heap m ! r)) = Some r"
    unfolding bySubdomain_ok_def by blast+
qed

lemma registry_inv_byId:
  assumes "registry_inv m" "map_of (tunnelsById m) i = Some r"
  shows "r < length (heap m)" "tunnelId (heap m ! r) = i"
    "map_of (tunnelsBySubdomain m) (subdomain (heap m ! r)) = Some r"
    "r \<in> set (getTunnelsByWs m (ws (heap m ! r)))"
proof -
  from assms(1) have "byId_ok m" unfolding registry_inv_def by blast
  with assms(2) show "r < length (heap m)" "tunnelId (heap m ! r) = i"
    "map_of (tunnelsBySubdomain m) (subdomain (heap m ! r)) = Some r"
    "r \<in> set (getTunnelsByWs m (ws (heap m ! r)))"
    unfolding byId_ok_def by blast+
qed

lemma registry_inv_byWs:
  assumes "registry_inv m" "map_of (tunnelsByWs m) w = Some rs"
  shows "rs \<noteq> []" "distinct rs"
    "\<And>r. r \<in> set rs \<Longrightarrow> r < length (heap m)"
    "\<And>r. r \<in> set rs \<Longrightarrow> ws (heap m ! r) = w"
    "\<And>r. r \<in> set rs \<Longrightarrow> map_of (tunnelsById m) (tunnelId (heap m ! r)) = Some r"
proof -
  from assms(1) have "byWs_ok m" unfolding registry_inv_def by blast
  with assms(2) have *: "rs \<noteq> [] \<and> distinct rs
            \<and> (\<forall>r \<in> set rs. r < length (heap m) \<and> ws (heap m ! r) = w
                  \<and> map_of (tunnelsById m) (tunnelId (heap m ! r)) = Some r)"
    unfolding byWs_ok_def by blast
  from * show "rs \<noteq> []" "distinct rs" by blast+
  from * show "\<And>r. r \<in> set rs \<Longrightarrow> r < length (heap m)"
    "\<And>r. r \<in> set rs \<Longrightarrow> ws (heap m ! r) = w"
    "\<And>r. r \<in> set rs \<Longrightarrow> map_of (tunnelsById m) (tunnelId (heap m ! r)) = Some r"
    by blast+
qed

lemma getTunnelsByWs_Some: "map_of (tunnelsByWs m) w = Some rs \<Longrightarrow> getTunnelsByWs m w = rs"
  by (simp add: getTunnelsByWs_def)

lemma getTunnelsByWs_None: "map_of (tunnelsByWs m) w = None \<Longrightarrow> getTunnelsByWs m w = []"
  by (simp add: getTunnelsByWs_def)

lemma registry_inv_getTunnelsByWs:
  assumes "registry_inv m" "r \<in> set (getTunnelsByWs m w)"
  shows "r < length (heap m)" "ws (heap m ! r) = w"
    "map_of (tunnelsById m) (tunnelId (heap m ! r)) = Some r"
proof -
  obtain rs where rs: "map_of (tunnelsByWs m) w = Some rs"
  proof (cases "map_of (tunnelsByWs m) w")
    case None
    from getTunnelsByWs_None [OF this] assms(2) show ?thesis by simp
  next
    case (Some rs)
    then show ?thesis by (rule that)
  qed
  from assms(2) have r: "r \<in> set rs" by (simp add: getTunnelsByWs_Some [OF rs])
  from registry_inv_byWs(3-5) [OF assms(1) rs r]
  show "r < length (heap m)" "ws (heap m ! r) = w"
    "map_of (tunnelsById m) (tunnelId (heap m ! r)) = Some r" .
qed

lemma registry_inv_distinct_getTunnelsByWs:
  assumes "registry_inv m"
  shows "distinct (getTunnelsByWs m w)"
proof (cases "map_of (tunnelsByWs m) w")
  case None
  then show ?thesis by (simp add: getTunnelsByWs_None)
next
  case (Some rs)
  from registry_inv_byWs(2) [OF assms Some] show ?thesis
    by (simp add: getTunnelsByWs_Some [OF Some])
qed

lemma registry_inv_registered:
  assumes inv: "registry_inv m"
    and sub: "\<not> has (tunnelsBySubdomain m) sub"
    and tid: "\<not> has (tunnelsById m) tid"
  shows "registry_inv (registered w port info tid now sub m)"
proof -
  let ?m' = "registered w port info tid now sub m"
  let ?n = "length (heap m)"
  note d = registry_inv_distinct [OF inv]
  note bySub = registry_inv_bySubdomain [OF inv]
  note byId = registry_inv_byId [OF inv]
  note byWs = registry_inv_byWs [OF inv]
  note inWs = registry_inv_getTunnelsByWs [OF inv]
  have heap': "heap ?m' = heap m @ [new_Tunnel tid sub w port info now]"
    and bySub': "map_of (tunnelsBySubdomain ?m') = (map_of (tunnelsBySubdomain m))(sub \<mapsto> ?n)"
    and byId': "map_of (tunnelsById ?m') = (map_of (tunnelsById m))(tid \<mapsto> ?n)"
    and byWs': "map_of (tunnelsByWs ?m') = (map_of (tunnelsByWs m))(w \<mapsto> getTunnelsByWs m w @ [?n])"
    by (simp_all add: registered_def update_conv')
  have old: "r < ?n \<Longrightarrow> heap ?m' ! r = heap m ! r" for r
    by (simp add: heap' nth_append)
  have new: "heap ?m' ! ?n = new_Tunnel tid sub w port info now"
    by (simp add: heap')
  have len: "length (heap ?m') = Suc ?n" by (simp add: heap')
  have get': "getTunnelsByWs ?m' w' = (if w' = w then getTunnelsByWs m w @ [?n] else getTunnelsByWs m w')" for w'
    by (simp add: getTunnelsByWs_def byWs')
  have fresh_list: "?n \<notin> set (getTunnelsByWs m w')" for w'
    using inWs(1) [of ?n w'] by auto
  note dist_list = registry_inv_distinct_getTunnelsByWs [OF inv]
  have c1: "distinct (map fst (tunnelsBySubdomain ?m'))" "distinct (map fst (tunnelsById ?m'))"
    "distinct (map fst (tunnelsByWs ?m'))"
    using d by (simp_all add: registered_def distinct_update)
  have c2: "\<forall>s r. map_of (tunnelsBySubdomain ?m') s = Some r \<longrightarrow>
            r < length (heap ?m') \<and> subdomain (heap ?m' ! r) = s
            \<and> map_of (tunnelsById ?m') (tunnelId (heap ?m' ! r)) = Some r"
  proof (intro allI impI)
    fix s r
    assume that: "map_of (tunnelsBySubdomain ?m') s = Some r"
    show "r < length (heap ?m') \<and> subdomain (heap ?m' ! r) = s
            \<and> map_of (tunnelsById ?m') (tunnelId (heap ?m' ! r)) = Some r"
    proof (cases "s = sub")
      case True
      with that have "r = ?n" by (simp add: bySub')
      then show ?thesis using True by (simp add: len new byId')
    next
      case False
      with that have m: "map_of (tunnelsBySubdomain m) s = Some r" by (simp add: bySub')
      note r = bySub [OF m]
      from r(3) tid have "tunnelId (heap m ! r) \<noteq> tid" by (auto simp: has_def)
      with r show ?thesis by (simp add: len old byId')
    qed
  qed
  have c3: "\<forall>i r. map_of (tunnelsById ?m') i = Some r \<longrightarrow>
            r < length (heap ?m') \<and> tunnelId (heap ?m' ! r) = i
            \<and> map_of (tunnelsBySubdomain ?m') (subdomain (heap ?m' ! r)) = Some r
            \<and> r \<in> set (getTunnelsByWs ?m' (ws (heap ?m' ! r)))"
  proof (intro allI impI)
    fix i r
    assume that: "map_of (tunnelsById ?m') i = Some r"
    show "r < length (heap ?m') \<and> tunnelId (heap ?m' ! r) = i
            \<and> map_of (tunnelsBySubdomain ?m') (subdomain (heap ?m' ! r)) = Some r
            \<and> r \<in> set (getTunnelsByWs ?m' (ws (heap ?m' ! r)))"
    proof (cases "i = tid")
      case True
      with that have "r = ?n" by (simp add: byId')
      then show ?thesis using True by (simp add: len new bySub' get')
    next
      case False
      with that have m: "map_of (tunnelsById m) i = Some r" by (simp add: byId')
      note r = byId [OF m]
      from r(3) sub have ne: "subdomain (heap m ! r) \<noteq> sub" by (auto simp: has_def)
      have "r \<in> set (getTunnelsByWs ?m' (ws (heap m ! r)))"
        using r(4) by (auto simp: get')
      with r ne show ?thesis by (simp add: len old bySub')
    qed
  qed
  have elem: "r < length (heap ?m') \<and> ws (heap ?m' ! r) = w''
                  \<and> map_of (tunnelsById ?m') (tunnelId (heap ?m' ! r)) = Some r"
    if "r \<in> set (getTunnelsByWs m w'')" for r w''
  proof -
    note r = inWs [OF that]
    from r(3) tid have "tunnelId (heap m ! r) \<noteq> tid" by (auto simp: has_def)
    with r show ?thesis by (simp add: len old byId')
  qed
  have c4: "\<forall>w' rs. map_of (tunnelsByWs ?m') w' = Some rs \<longrightarrow>
            rs \<noteq> [] \<and> distinct rs
            \<and> (\<forall>r \<in> set rs. r < length (heap ?m') \<and> ws (heap ?m' ! r) = w'
                  \<and> map_of (tunnelsById ?m') (tunnelId (heap ?m' ! r)) = Some r)"
  proof (intro allI impI)
    fix w' rs
    assume that: "map_of (tunnelsByWs ?m') w' = Some rs"
    show "rs \<noteq> [] \<and> distinct rs
            \<and> (\<forall>r \<in> set rs. r < length (heap ?m') \<and> ws (heap ?m' ! r) = w'
                  \<and> map_of (tunnelsById ?m') (tunnelId (heap ?m' ! r)) = Some r)"
    proof (cases "w' = w")
      case True
      with that have rs: "rs = getTunnelsByWs m w @ [?n]" by (simp add: byWs')
      have "rs \<noteq> []" by (simp add: rs)
      moreover have "distinct rs"
        using dist_list [of w] fresh_list [of w] by (simp add: rs)
      moreover have "r < length (heap ?m') \<and> ws (heap ?m' ! r) = w'
                  \<and> map_of (tunnelsById ?m') (tunnelId (heap ?m' ! r)) = Some r"
        if "r \<in> set rs" for r
      proof (cases "r = ?n")
        case True
        then show ?thesis using \<open>w' = w\<close> by (simp add: len new byId')
      next
        case False
        with that have "r \<in> set (getTunnelsByWs m w)" by (simp add: rs)
        from elem [OF this] show ?thesis using \<open>w' = w\<close> by simp
      qed
      ultimately show ?thesis by blast
    next
      case False
      with that have m: "map_of (tunnelsByWs m) w' = Some rs" by (simp add: byWs')
      then have rs: "rs = getTunnelsByWs m w'" by (simp add: getTunnelsByWs_def)
      have "r < length (heap ?m') \<and> ws (heap ?m' ! r) = w'
                  \<and> map_of (tunnelsById ?m') (tunnelId (heap ?m' ! r)) = Some r"
        if "r \<in> set rs" for r
        using elem [of r w'] that rs by simp
      with byWs(1,2) [OF m] show ?thesis by blast
    qed
  qed
  from c1 have "keys_distinct ?m'" unfolding keys_distinct_def by blast
  moreover from c2 have "bySubdomain_ok ?m'" unfolding bySubdomain_ok_def .
  moreover from c3 have "byId_ok ?m'" unfolding byId_ok_def .
  moreover from c4 have "byWs_ok ?m'" unfolding byWs_ok_def .
  ultimately show ?thesis unfolding registry_inv_def by blast
qed

section \<open>Closing a tunnel\<close>

lemma closeTunnel_unknown: "map_of (tunnelsById m) tid = None \<Longrightarrow> closeTunnel tid reason m = m"
  by (simp add: closeTunnel_def)

lemma closeTunnel_fields:
  assumes "map_of (tunnelsById m) tid = Some r"
  shows "heap (closeTunnel tid reason m) = (heap m)[r := (heap m ! r)\<lparr>pendingRequests := []\<rparr>]"
    and "tunnelsBySubdomain (closeTunnel tid reason m) =
           AList.delete (subdomain (heap m ! r)) (tunnelsBySubdomain m)"
    and "tunnelsById (closeTunnel tid reason m) = AList.delete tid (tunnelsById m)"
    and "emitted (closeTunnel tid reason m) = emitted m @ [TunnelClosed r reason]"
    and "called (closeTunnel tid reason m) =
           called m @ map (\<lambda>(requestId, pending). Reject (handle pending) ''Tunnel closed'')
                        (pendingRequests (heap m ! r))"
  using assms by (simp_all add: closeTunnel_def Let_def)

lemma closeTunnel_tunnelsByWs:
  assumes "map_of (tunnelsById m) tid = Some r"
    and "map_of (tunnelsByWs m) (ws (heap m ! r)) = Some rs"
  shows "tunnelsByWs (closeTunnel tid reason m) =
           (if remove1 r rs = [] then AList.delete (ws (heap m ! r)) (tunnelsByWs m)
            else AList.update (ws (heap m ! r)) (remove1 r rs) (tunnelsByWs m))"
  using assms by (simp add: closeTunnel_def Let_def)

lemma heap_clear_nth:
  "(h[r := (h ! r)\<lparr>pendingRequests := ps\<rparr>]) ! r' =
     (if r' = r \<and> r < length h then (h ! r)\<lparr>pendingRequests := ps\<rparr> else h ! r')"
proof (cases "r < length h")
  case True
  then show ?thesis by (simp add: nth_list_update)
next
  case False
  then have "length h \<le> r" by simp
  then show ?thesis by (simp add: list_update_beyond)
qed

lemma heap_clear_keys:
  "tunnelId ((h[r := (h ! r)\<lparr>pendingRequests := ps\<rparr>]) ! r') = tunnelId (h ! r')"
  "subdomain ((h[r := (h ! r)\<lparr>pendingRequests := ps\<rparr>]) ! r') = subdomain (h ! r')"
  "ws ((h[r := (h ! r)\<lparr>pendingRequests := ps\<rparr>]) ! r') = ws (h ! r')"
  by (simp_all add: heap_clear_nth)

lemma registry_inv_closeTunnel:
  assumes inv: "registry_inv m"
  shows "registry_inv (closeTunnel tid reason m)"
proof (cases "map_of (tunnelsById m) tid")
  case None
  with inv show ?thesis by (simp add: closeTunnel_unknown)
next
  case (Some r)
  let ?m' = "closeTunnel tid reason m"
  let ?t = "heap m ! r"
  note d = registry_inv_distinct [OF inv]
  note bySub = registry_inv_bySubdomain [OF inv]
  note byId = registry_inv_byId [OF inv]
  note byWs = registry_inv_byWs [OF inv]
  note inWs = registry_inv_getTunnelsByWs [OF inv]
  note t = byId [OF Some]
  obtain rs where rs: "map_of (tunnelsByWs m) (ws ?t) = Some rs"
  proof (cases "map_of (tunnelsByWs m) (ws ?t)")
    case None
    from getTunnelsByWs_None [OF this] t(4) show ?thesis by simp
  next
    case (Some rs)
    then show ?thesis by (rule that)
  qed
  have rs_get: "getTunnelsByWs m (ws ?t) = rs" by (rule getTunnelsByWs_Some [OF rs])
  have rs_dist: "distinct rs" by (rule byWs(2) [OF rs])
  note f = closeTunnel_fields [OF Some, of reason]
  have len: "length (heap ?m') = length (heap m)" by (simp add: f(1))
  have keys: "tunnelId (heap ?m' ! r') = tunnelId (heap m ! r')"
    "subdomain (heap ?m' ! r') = subdomain (heap m ! r')"
    "ws (heap ?m' ! r') = ws (heap m ! r')" for r'
    by (simp_all add: f(1) heap_clear_keys)
  have bySub': "map_of (tunnelsBySubdomain ?m') = (map_of (tunnelsBySubdomain m))(subdomain ?t := None)"
    by (simp add: f(2) delete_conv')
  have byId': "map_of (tunnelsById ?m') = (map_of (tunnelsById m))(tid := None)"
    by (simp add: f(3) delete_conv')
  have byWs': "map_of (tunnelsByWs ?m') =
      (if remove1 r rs = [] then (map_of (tunnelsByWs m))(ws ?t := None)
       else (map_of (tunnelsByWs m))(ws ?t \<mapsto> remove1 r rs))"
    by (simp add: closeTunnel_tunnelsByWs [OF Some rs] delete_conv' update_conv')
  have get': "getTunnelsByWs ?m' w' = (if w' = ws ?t then remove1 r rs else getTunnelsByWs m w')" for w'
    by (simp add: getTunnelsByWs_def byWs')
  have other_id: "tunnelId (heap m ! r') \<noteq> tid"
    if "map_of (tunnelsById m) (tunnelId (heap m ! r')) = Some r'" "r' \<noteq> r" for r'
    using that Some by auto
  have c1: "keys_distinct ?m'"
    unfolding keys_distinct_def using d
    by (simp add: f(2,3) closeTunnel_tunnelsByWs [OF Some rs] distinct_delete distinct_update)
  have c2: "bySubdomain_ok ?m'"
    unfolding bySubdomain_ok_def
  proof (intro allI impI)
    fix s r'
    assume "map_of (tunnelsBySubdomain ?m') s = Some r'"
    then have s: "s \<noteq> subdomain ?t" and m: "map_of (tunnelsBySubdomain m) s = Some r'"
      by (auto simp: bySub' split: if_splits)
    note r' = bySub [OF m]
    from r'(2) s have "r' \<noteq> r" by auto
    from other_id [OF r'(3) this] r'
    show "r' < length (heap ?m') \<and> subdomain (heap ?m' ! r') = s
            \<and> map_of (tunnelsById ?m') (tunnelId (heap ?m' ! r')) = Some r'"
      by (simp add: len keys byId')
  qed
  have c3: "byId_ok ?m'"
    unfolding byId_ok_def
  proof (intro allI impI)
    fix i r'
    assume "map_of (tunnelsById ?m') i = Some r'"
    then have i: "i \<noteq> tid" and m: "map_of (tunnelsById m) i = Some r'"
      by (auto simp: byId' split: if_splits)
    note r' = byId [OF m]
    from r'(2) i t(2) have ne: "r' \<noteq> r" by auto
    have "subdomain (heap m ! r') \<noteq> subdomain ?t"
    proof
      assume eq: "subdomain (heap m ! r') = subdomain ?t"
      from r'(3) have "map_of (tunnelsBySubdomain m) (subdomain ?t) = Some r'"
        by (simp only: eq)
      with t(3) have "Some r = Some r'" by (simp only:)
      with ne show False by simp
    qed
    moreover have "r' \<in> set (getTunnelsByWs ?m' (ws (heap m ! r')))"
      using r'(4) ne rs_get by (auto simp: get')
    ultimately
    show "r' < length (heap ?m') \<and> tunnelId (heap ?m' ! r') = i
            \<and> map_of (tunnelsBySubdomain ?m') (subdomain (heap ?m' ! r')) = Some r'
            \<and> r' \<in> set (getTunnelsByWs ?m' (ws (heap ?m' ! r')))"
      using r' by (simp add: len keys bySub')
  qed
  have c4: "byWs_ok ?m'"
    unfolding byWs_ok_def
  proof (intro allI impI)
    fix w' rs'
    assume a: "map_of (tunnelsByWs ?m') w' = Some rs'"
    have sub: "set rs' \<subseteq> set (getTunnelsByWs m w') - {r}" and ne: "rs' \<noteq> []" and dist: "distinct rs'"
    proof -
      show "set rs' \<subseteq> set (getTunnelsByWs m w') - {r}"
      proof (cases "w' = ws ?t")
        case True
        with a have "rs' = remove1 r rs" by (auto simp: byWs' split: if_splits)
        with True rs_get rs_dist show ?thesis by auto
      next
        case False
        with a have m: "map_of (tunnelsByWs m) w' = Some rs'" by (auto simp: byWs' split: if_splits)
        have "r \<notin> set rs'"
        proof
          assume "r \<in> set rs'"
          from byWs(4) [OF m this] False show False by simp
        qed
        with getTunnelsByWs_Some [OF m] show ?thesis by auto
      qed
      show "rs' \<noteq> []"
      proof (cases "w' = ws ?t")
        case True
        with a show ?thesis by (auto simp: byWs' split: if_splits)
      next
        case False
        with a have m: "map_of (tunnelsByWs m) w' = Some rs'" by (auto simp: byWs' split: if_splits)
        from byWs(1) [OF m] show ?thesis .
      qed
      show "distinct rs'"
      proof (cases "w' = ws ?t")
        case True
        with a have "rs' = remove1 r rs" by (auto simp: byWs' split: if_splits)
        with rs_dist show ?thesis by simp
      next
        case False
        with a have m: "map_of (tunnelsByWs m) w' = Some rs'" by (auto simp: byWs' split: if_splits)
        from byWs(2) [OF m] show ?thesis .
      qed
    qed
    have "r' < length (heap ?m') \<and> ws (heap ?m' ! r') = w'
                  \<and> map_of (tunnelsById ?m') (tunnelId (heap ?m' ! r')) = Some r'"
      if "r' \<in> set rs'" for r'
    proof -
      from that sub have in_old: "r' \<in> set (getTunnelsByWs m w')" and ne: "r' \<noteq> r" by auto
      note r' = inWs [OF in_old]
      from other_id [OF r'(3) ne] r'
      show ?thesis by (simp add: len keys byId')
    qed
    with ne dist
    show "rs' \<noteq> [] \<and> distinct rs'
            \<and> (\<forall>r' \<in> set rs'. r' < length (heap ?m') \<and> ws (heap ?m' ! r') = w'
                  \<and> map_of (tunnelsById ?m') (tunnelId (heap ?m' ! r')) = Some r')"
      by blast
  qed
  from c1 c2 c3 c4 show ?thesis unfolding registry_inv_def by blast
qed

section \<open>The invariant along a run\<close>

lemma registry_inv_fold_closeTunnel:
  "registry_inv m \<Longrightarrow> registry_inv (fold (\<lambda>x. closeTunnel (f x) reason) xs m)"
  by (induction xs arbitrary: m) (simp_all add: registry_inv_closeTunnel)

lemma registry_inv_closeTunnelsForWs:
  "registry_inv m \<Longrightarrow> registry_inv (closeTunnelsForWs w reason m)"
  unfolding closeTunnelsForWs_def by (rule registry_inv_fold_closeTunnel)

lemma registry_inv_closeAll: "registry_inv m \<Longrightarrow> registry_inv (closeAll m)"
  unfolding closeAll_def by (rule registry_inv_fold_closeTunnel)

lemma registry_inv_registerTunnel:
  assumes inv: "registry_inv m"
    and fresh: "\<not> has (tunnelsById m) tid"
    and reg: "registerTunnel w req port info draws tid now m = Some (res, m')"
  shows "registry_inv m'"
proof (cases res)
  case (Success r)
  from registerTunnel_Success [OF reg [unfolded Success]]
  obtain sub where "m' = registered w port info tid now sub m"
    and "\<not> has (tunnelsBySubdomain m) sub" by blast
  with inv fresh show ?thesis by (simp add: registry_inv_registered)
next
  case (Failure msg code)
  from registerTunnel_Failure [OF reg [unfolded Failure]] inv show ?thesis by simp
qed

lemma registry_inv_step:
  assumes "registry_inv m" "fresh_id x m" "step x m = Some m'"
  shows "registry_inv m'"
proof (cases x)
  case (RegisterTunnel w req port info draws tid now)
  with assms(3) obtain res where "registerTunnel w req port info draws tid now m = Some (res, m')"
    by auto
  with assms(1,2) RegisterTunnel show ?thesis
    by (auto intro: registry_inv_registerTunnel)
next
  case (CloseTunnel tid reason)
  with assms show ?thesis by (auto intro: registry_inv_closeTunnel)
next
  case (CloseTunnelsForWs w reason)
  with assms show ?thesis by (auto intro: registry_inv_closeTunnelsForWs)
next
  case CloseAll
  with assms show ?thesis by (auto intro: registry_inv_closeAll)
qed

lemma registry_inv_run:
  "registry_inv m \<Longrightarrow> collision_free xs m \<Longrightarrow> run xs m = Some m' \<Longrightarrow> registry_inv m'"
proof (induction xs arbitrary: m)
  case Nil
  then show ?case by simp
next
  case (Cons x xs)
  from Cons.prems(3) obtain m1 where m1: "step x m = Some m1" and rest: "run xs m1 = Some m'"
    by (auto split: option.splits)
  from Cons.prems(2) m1 have "fresh_id x m" and cf: "collision_free xs m1" by simp_all
  from registry_inv_step [OF Cons.prems(1) this(1) m1] have "registry_inv m1" .
  from Cons.IH [OF this cf rest] show ?case .
qed

section \<open>From the invariant to the agreement of the indices\<close>

lemma registry_inv_live:
  assumes inv: "registry_inv m" and r: "r \<in> set (live_tunnels m)"
  shows "map_of (tunnelsById m) (tunnelId (heap m ! r)) = Some r"
proof -
  from r consider
      (sub) s where "(s, r) \<in> set (tunnelsBySubdomain m)"
    | (id) i where "(i, r) \<in> set (tunnelsById m)"
    | (ws) w rs where "(w, rs) \<in> set (tunnelsByWs m)" "r \<in> set rs"
    unfolding live_tunnels_def by fastforce
  then show ?thesis
  proof cases
    case sub
    with registry_inv_distinct(1) [OF inv] have "map_of (tunnelsBySubdomain m) s = Some r"
      by simp
    from registry_inv_bySubdomain(3) [OF inv this] show ?thesis .
  next
    case id
    with registry_inv_distinct(2) [OF inv] have i: "map_of (tunnelsById m) i = Some r"
      by simp
    from registry_inv_byId(2) [OF inv i] i show ?thesis by simp
  next
    case ws
    with registry_inv_distinct(3) [OF inv] have "map_of (tunnelsByWs m) w = Some rs"
      by simp
    from registry_inv_byWs(5) [OF inv this ws(2)] show ?thesis .
  qed
qed

lemma registry_inv_indices_agree:
  assumes inv: "registry_inv m"
  shows "indices_agree m"
proof -
  have a: "indexed_everywhere m r" if "r \<in> set (live_tunnels m)" for r
  proof -
    note i = registry_inv_live [OF inv that]
    from registry_inv_byId(3,4) [OF inv i] i show ?thesis
      by (simp add: indexed_everywhere_def)
  qed
  have b: "subdomain (heap m ! r) = s" if "(s, r) \<in> set (tunnelsBySubdomain m)" for s r
  proof -
    from that registry_inv_distinct(1) [OF inv] have "map_of (tunnelsBySubdomain m) s = Some r"
      by simp
    from registry_inv_bySubdomain(2) [OF inv this] show ?thesis .
  qed
  have c: "tunnelId (heap m ! r) = i" if "(i, r) \<in> set (tunnelsById m)" for i r
  proof -
    from that registry_inv_distinct(2) [OF inv] have "map_of (tunnelsById m) i = Some r"
      by simp
    from registry_inv_byId(2) [OF inv this] show ?thesis .
  qed
  have d: "ws (heap m ! r) = w" if "(w, rs) \<in> set (tunnelsByWs m)" "r \<in> set rs" for w rs r
  proof -
    from that registry_inv_distinct(3) [OF inv] have "map_of (tunnelsByWs m) w = Some rs"
      by simp
    from registry_inv_byWs(4) [OF inv this that(2)] show ?thesis .
  qed
  have d': "list_all (\<lambda>(w, rs). list_all (\<lambda>r. ws (heap m ! r) = w) rs) (tunnelsByWs m)"
    unfolding list_all_iff using d by blast
  have b': "list_all (\<lambda>(s, r). subdomain (heap m ! r) = s) (tunnelsBySubdomain m)"
    unfolding list_all_iff using b by blast
  have c': "list_all (\<lambda>(i, r). tunnelId (heap m ! r) = i) (tunnelsById m)"
    unfolding list_all_iff using c by blast
  have a': "list_all (indexed_everywhere m) (live_tunnels m)"
    unfolding list_all_iff using a by blast
  from a' b' c' d' show ?thesis unfolding indices_agree_def by blast
qed

text \<open>
  The indices agree after every run in which no registration draws the identifier of a
  tunnel that is live at that moment: every tunnel that some index refers to is found in
  the subdomain map under its subdomain, in the identifier map under its identifier and
  in the array of its connection, and every entry is filed under the key of the tunnel it
  refers to.
\<close>

lemma indices_agree_after_run:
  assumes "run ops new_TunnelManager = Some m"
    and "collision_free ops new_TunnelManager"
  shows "indices_agree m"
  using registry_inv_run [OF registry_inv_new assms(2) assms(1)]
  by (rule registry_inv_indices_agree)

section \<open>Evaluation on concrete registries\<close>

lemma valid_demo1: "isValidSubdomain ''demo1''"
  by (simp add: isValidSubdomain_iff subdomain_grammar_def is_lower_alnum_def is_label_char_def)

lemma valid_demo2: "isValidSubdomain ''demo2''"
  by (simp add: isValidSubdomain_iff subdomain_grammar_def is_lower_alnum_def is_label_char_def)

lemmas eval_registry =
  registerTunnel_def closeTunnel_def closeTunnelsForWs_def closeAll_def
  isValidSubdomain_lowercase reservedSubdomains_def has_def new_TunnelManager_def
  getTunnelsByWs_def MAX_TUNNELS_PER_CLIENT_def new_Tunnel_def

lemma indices_agree_after_run_example:
  "run [RegisterTunnel 1 (Some ''demo1'') 8080 [] [] ''AAAAAAAAAAAA'' 100,
        RegisterTunnel 1 None 3000 [] [''abcdefgh''] ''BBBBBBBBBBBB'' 101,
        CloseTunnel ''AAAAAAAAAAAA'' ''Client requested close''] new_TunnelManager \<noteq> None
   \<and> collision_free
       [RegisterTunnel 1 (Some ''demo1'') 8080 [] [] ''AAAAAAAAAAAA'' 100,
        RegisterTunnel 1 None 3000 [] [''abcdefgh''] ''BBBBBBBBBBBB'' 101,
        CloseTunnel ''AAAAAAAAAAAA'' ''Client requested close''] new_TunnelManager
   \<and> live_tunnels (the (run
       [RegisterTunnel 1 (Some ''demo1'') 8080 [] [] ''AAAAAAAAAAAA'' 100,
        RegisterTunnel 1 None 3000 [] [''abcdefgh''] ''BBBBBBBBBBBB'' 101,
        CloseTunnel ''AAAAAAAAAAAA'' ''Client requested close''] new_TunnelManager)) = [1, 1, 1]
   \<and> indices_agree (the (run
       [RegisterTunnel 1 (Some ''demo1'') 8080 [] [] ''AAAAAAAAAAAA'' 100,
        RegisterTunnel 1 None 3000 [] [''abcdefgh''] ''BBBBBBBBBBBB'' 101,
        CloseTunnel ''AAAAAAAAAAAA'' ''Client requested close''] new_TunnelManager))"
proof -
  let ?ops = "[RegisterTunnel 1 (Some ''demo1'') 8080 [] [] ''AAAAAAAAAAAA'' 100,
        RegisterTunnel 1 None 3000 [] [''abcdefgh''] ''BBBBBBBBBBBB'' 101,
        CloseTunnel ''AAAAAAAAAAAA'' ''Client requested close'']"
  let ?m = "\<lparr>heap = [new_Tunnel ''AAAAAAAAAAAA'' ''demo1'' 1 8080 [] 100,
                     new_Tunnel ''BBBBBBBBBBBB'' ''abcdefgh'' 1 3000 [] 101],
             tunnelsBySubdomain = [(''abcdefgh'', 1)], tunnelsById = [(''BBBBBBBBBBBB'', 1)],
             tunnelsByWs = [(1, [1])],
             emitted = [TunnelCreated 0, TunnelCreated 1, TunnelClosed 0 ''Client requested close''],
             called = []\<rparr>"
  have r: "run ?ops new_TunnelManager = Some ?m"
    by (simp add: eval_registry valid_demo1)
  have c: "collision_free ?ops new_TunnelManager"
    by (simp add: eval_registry valid_demo1)
  have l: "live_tunnels ?m = [1, 1, 1]" by (simp add: live_tunnels_def)
  from indices_agree_after_run [OF r c] r c l show ?thesis by simp
qed

text \<open>
  C2. The claim: after any sequence of \<open>registerTunnel\<close>, \<open>closeTunnel\<close>,
  \<open>closeTunnelsForWs\<close> and \<open>closeAll\<close> the three indices agree on every live tunnel.
  \<open>registerTunnel\<close> stores the result of \<open>generateTunnelId()\<close> without looking for a live
  tunnel under it. When the second of two registrations draws the identifier of the first,
  the identifier map is overwritten: the first tunnel stays in the subdomain map and in the
  array of its connection and is no longer found under its identifier.
\<close>

theorem tunnel_id_collision_breaks_agreement:
  "run [RegisterTunnel 1 (Some ''demo1'') 8080 [] [] ''AAAAAAAAAAAA'' 100,
        RegisterTunnel 2 (Some ''demo2'') 8080 [] [] ''AAAAAAAAAAAA'' 101] new_TunnelManager =
     Some \<lparr>heap = [new_Tunnel ''AAAAAAAAAAAA'' ''demo1'' 1 8080 [] 100,
                  new_Tunnel ''AAAAAAAAAAAA'' ''demo2'' 2 8080 [] 101],
           tunnelsBySubdomain = [(''demo1'', 0), (''demo2'', 1)],
           tunnelsById = [(''AAAAAAAAAAAA'', 1)],
           tunnelsByWs = [(1, [0]), (2, [1])],
           emitted = [TunnelCreated 0, TunnelCreated 1], called = []\<rparr>
   \<and> \<not> indices_agree
       \<lparr>heap = [new_Tunnel ''AAAAAAAAAAAA'' ''demo1'' 1 8080 [] 100,
                new_Tunnel ''AAAAAAAAAAAA'' ''demo2'' 2 8080 [] 101],
         tunnelsBySubdomain = [(''demo1'', 0), (''demo2'', 1)],
         tunnelsById = [(''AAAAAAAAAAAA'', 1)],
         tunnelsByWs = [(1, [0]), (2, [1])],
         emitted = [TunnelCreated 0, TunnelCreated 1], called = []\<rparr>"
proof -
  have "run [RegisterTunnel 1 (Some ''demo1'') 8080 [] [] ''AAAAAAAAAAAA'' 100,
        RegisterTunnel 2 (Some ''demo2'') 8080 [] [] ''AAAAAAAAAAAA'' 101] new_TunnelManager =
     Some \<lparr>heap = [new_Tunnel ''AAAAAAAAAAAA'' ''demo1'' 1 8080 [] 100,
                  new_Tunnel ''AAAAAAAAAAAA'' ''demo2'' 2 8080 [] 101],
           tunnelsBySubdomain = [(''demo1'', 0), (''demo2'', 1)],
           tunnelsById = [(''AAAAAAAAAAAA'', 1)],
           tunnelsByWs = [(1, [0]), (2, [1])],
           emitted = [TunnelCreated 0, TunnelCreated 1], called = []\<rparr>"
    by (simp add: registerTunnel_def valid_demo1 valid_demo2 isValidSubdomain_lowercase
        reservedSubdomains_def has_def new_TunnelManager_def getTunnelsByWs_def
        MAX_TUNNELS_PER_CLIENT_def)
  moreover have "\<not> indices_agree
       \<lparr>heap = [new_Tunnel ''AAAAAAAAAAAA'' ''demo1'' 1 8080 [] 100,
                new_Tunnel ''AAAAAAAAAAAA'' ''demo2'' 2 8080 [] 101],
         tunnelsBySubdomain = [(''demo1'', 0), (''demo2'', 1)],
         tunnelsById = [(''AAAAAAAAAAAA'', 1)],
         tunnelsByWs = [(1, [0]), (2, [1])],
         emitted = [TunnelCreated 0, TunnelCreated 1], called = []\<rparr>"
    by (simp add: indices_agree_def live_tunnels_def indexed_everywhere_def)
  ultimately show ?thesis by (rule conjI)
qed

section \<open>Outcomes of a registration\<close>

lemma registerTunnel_invalid:
  assumes "requested \<noteq> []" "\<not> isValidSubdomain requested"
  shows "registerTunnel w (Some requested) port info draws tid now m =
           Some (Failure ''Invalid subdomain format'' INVALID_SUBDOMAIN, m)"
  using assms by (simp add: registerTunnel_def)

lemma registerTunnel_reserved:
  assumes "isValidSubdomain requested" "toLowerCase requested \<in> set reservedSubdomains"
  shows "registerTunnel w (Some requested) port info draws tid now m =
           Some (Failure ''Subdomain is reserved'' SUBDOMAIN_TAKEN, m)"
  using assms isValidSubdomain_nonempty [OF assms(1)] by (simp add: registerTunnel_def)

lemma registerTunnel_in_use:
  assumes "isValidSubdomain requested" "toLowerCase requested \<notin> set reservedSubdomains"
    "has (tunnelsBySubdomain m) (toLowerCase requested)"
  shows "registerTunnel w (Some requested) port info draws tid now m =
           Some (Failure ''Subdomain is already in use'' SUBDOMAIN_TAKEN, m)"
  using assms isValidSubdomain_nonempty [OF assms(1)] by (simp add: registerTunnel_def)

lemma registerTunnel_limit:
  assumes "registerTunnel w req port info draws tid now m =
             Some (Failure msg TUNNEL_LIMIT_EXCEEDED, m')"
  shows "MAX_TUNNELS_PER_CLIENT \<le> length (getTunnelsByWs m w)"
    and "req = Some requested \<Longrightarrow> requested \<noteq> [] \<Longrightarrow>
           isValidSubdomain requested \<and> toLowerCase requested \<notin> set reservedSubdomains
           \<and> \<not> has (tunnelsBySubdomain m) (toLowerCase requested)"
  using assms unfolding registerTunnel_def
  by (auto simp: Let_def split: option.splits sum.splits if_splits)

text \<open>
  C1 (as amended). For a call of \<open>registerTunnel\<close> with a non-empty requested subdomain:
  when the subdomain fails the grammar the result is the error \<open>INVALID_SUBDOMAIN\<close>; when
  it passes the grammar and is reserved, or passes the grammar and is held by a live
  tunnel, the result is the error \<open>SUBDOMAIN_TAKEN\<close>; in each of these cases the manager
  that is returned is the one that was given, so none of the three maps has changed.
\<close>

theorem registerTunnel_rejects:
  "(requested \<noteq> [] \<and> \<not> isValidSubdomain requested \<longrightarrow>
      registerTunnel w (Some requested) port info draws tid now m =
        Some (Failure ''Invalid subdomain format'' INVALID_SUBDOMAIN, m))
   \<and> (isValidSubdomain requested \<and> requested \<in> set reservedSubdomains \<longrightarrow>
      registerTunnel w (Some requested) port info draws tid now m =
        Some (Failure ''Subdomain is reserved'' SUBDOMAIN_TAKEN, m))
   \<and> (isValidSubdomain requested \<and> requested \<notin> set reservedSubdomains
        \<and> has (tunnelsBySubdomain m) requested \<longrightarrow>
      registerTunnel w (Some requested) port info draws tid now m =
        Some (Failure ''Subdomain is already in use'' SUBDOMAIN_TAKEN, m))"
proof (intro conjI impI)
  assume "requested \<noteq> [] \<and> \<not> isValidSubdomain requested"
  then show "registerTunnel w (Some requested) port info draws tid now m =
        Some (Failure ''Invalid subdomain format'' INVALID_SUBDOMAIN, m)"
    by (simp add: registerTunnel_invalid)
next
  assume a: "isValidSubdomain requested \<and> requested \<in> set reservedSubdomains"
  then have "toLowerCase requested = requested" by (simp add: isValidSubdomain_lowercase)
  with a show "registerTunnel w (Some requested) port info draws tid now m =
        Some (Failure ''Subdomain is reserved'' SUBDOMAIN_TAKEN, m)"
    by (simp add: registerTunnel_reserved)
next
  assume a: "isValidSubdomain requested \<and> requested \<notin> set reservedSubdomains
        \<and> has (tunnelsBySubdomain m) requested"
  then have "toLowerCase requested = requested" by (simp add: isValidSubdomain_lowercase)
  with a show "registerTunnel w (Some requested) port info draws tid now m =
        Some (Failure ''Subdomain is already in use'' SUBDOMAIN_TAKEN, m)"
    by (simp add: registerTunnel_in_use)
qed

lemma valid_admin: "isValidSubdomain ''admin''"
  by (simp add: isValidSubdomain_iff subdomain_grammar_def is_lower_alnum_def is_label_char_def)

lemma invalid_Demo1: "\<not> isValidSubdomain ''Demo1''"
  by (simp add: isValidSubdomain_iff subdomain_grammar_def is_lower_alnum_def is_label_char_def)

lemma invalid_api: "\<not> isValidSubdomain ''api''"
  by (simp add: isValidSubdomain_iff)

theorem registerTunnel_rejects_witness:
  "registerTunnel 2 (Some ''Demo1'') 8080 [] [] ''BBBBBBBBBBBB'' 101
      \<lparr>heap = [new_Tunnel ''AAAAAAAAAAAA'' ''demo1'' 1 8080 [] 100],
        tunnelsBySubdomain = [(''demo1'', 0)], tunnelsById = [(''AAAAAAAAAAAA'', 0)],
        tunnelsByWs = [(1, [0])], emitted = [TunnelCreated 0], called = []\<rparr> =
     Some (Failure ''Invalid subdomain format'' INVALID_SUBDOMAIN,
       \<lparr>heap = [new_Tunnel ''AAAAAAAAAAAA'' ''demo1'' 1 8080 [] 100],
        tunnelsBySubdomain = [(''demo1'', 0)], tunnelsById = [(''AAAAAAAAAAAA'', 0)],
        tunnelsByWs = [(1, [0])], emitted = [TunnelCreated 0], called = []\<rparr>)
   \<and> registerTunnel 2 (Some ''admin'') 8080 [] [] ''BBBBBBBBBBBB'' 101
      \<lparr>heap = [new_Tunnel ''AAAAAAAAAAAA'' ''demo1'' 1 8080 [] 100],
        tunnelsBySubdomain = [(''demo1'', 0)], tunnelsById = [(''AAAAAAAAAAAA'', 0)],
        tunnelsByWs = [(1, [0])], emitted = [TunnelCreated 0], called = []\<rparr> =
     Some (Failure ''Subdomain is reserved'' SUBDOMAIN_TAKEN,
       \<lparr>heap = [new_Tunnel ''AAAAAAAAAAAA'' ''demo1'' 1 8080 [] 100],
        tunnelsBySubdomain = [(''demo1'', 0)], tunnelsById = [(''AAAAAAAAAAAA'', 0)],
        tunnelsByWs = [(1, [0])], emitted = [TunnelCreated 0], called = []\<rparr>)
   \<and> registerTunnel 2 (Some ''demo1'') 8080 [] [] ''BBBBBBBBBBBB'' 101
      \<lparr>heap = [new_Tunnel ''AAAAAAAAAAAA'' ''demo1'' 1 8080 [] 100],
        tunnelsBySubdomain = [(''demo1'', 0)], tunnelsById = [(''AAAAAAAAAAAA'', 0)],
        tunnelsByWs = [(1, [0])], emitted = [TunnelCreated 0], called = []\<rparr> =
     Some (Failure ''Subdomain is already in use'' SUBDOMAIN_TAKEN,
       \<lparr>heap = [new_Tunnel ''AAAAAAAAAAAA'' ''demo1'' 1 8080 [] 100],
        tunnelsBySubdomain = [(''demo1'', 0)], tunnelsById = [(''AAAAAAAAAAAA'', 0)],
        tunnelsByWs = [(1, [0])], emitted = [TunnelCreated 0], called = []\<rparr>)"
proof -
  let ?m = "\<lparr>heap = [new_Tunnel ''AAAAAAAAAAAA'' ''demo1'' 1 8080 [] 100],
        tunnelsBySubdomain = [(''demo1'', 0)], tunnelsById = [(''AAAAAAAAAAAA'', 0)],
        tunnelsByWs = [(1, [0])], emitted = [TunnelCreated 0], called = []\<rparr>"
  have h: "has (tunnelsBySubdomain ?m) ''demo1''" by (simp add: has_def)
  have a: "''admin'' \<in> set reservedSubdomains" "''demo1'' \<notin> set reservedSubdomains"
    by (simp_all add: reservedSubdomains_def)
  from registerTunnel_rejects [of "''Demo1''" 2 8080 "[]" "[]" "''BBBBBBBBBBBB''" 101 ?m]
    registerTunnel_rejects [of "''admin''" 2 8080 "[]" "[]" "''BBBBBBBBBBBB''" 101 ?m]
    registerTunnel_rejects [of "''demo1''" 2 8080 "[]" "[]" "''BBBBBBBBBBBB''" 101 ?m]
    invalid_Demo1 valid_admin valid_demo1 h a
  show ?thesis by simp
qed

theorem registerTunnel_rejects_counterexample:
  "''api'' \<in> set reservedSubdomains
   \<and> registerTunnel 1 (Some ''api'') 8080 [] [] ''AAAAAAAAAAAA'' 100 new_TunnelManager =
     Some (Failure ''Invalid subdomain format'' INVALID_SUBDOMAIN, new_TunnelManager)"
  by (simp add: reservedSubdomains_def registerTunnel_invalid invalid_api)

text \<open>
  C10 (as amended). The limit of ten tunnels for each connection is checked after the subdomain has
  been chosen. For a connection that already owns the maximum, a registration with a
  non-empty requested subdomain that fails the grammar returns \<open>INVALID_SUBDOMAIN\<close>, one
  whose subdomain passes the grammar and is reserved or live returns \<open>SUBDOMAIN_TAKEN\<close>,
  and one whose subdomain passes all checks returns \<open>TUNNEL_LIMIT_EXCEEDED\<close>. Whenever
  \<open>TUNNEL_LIMIT_EXCEEDED\<close> is returned the connection owns the maximum and a requested
  subdomain, if there is one, has passed every subdomain check.
\<close>

theorem limit_checked_after_subdomain:
  "MAX_TUNNELS_PER_CLIENT = 10
   \<and> (MAX_TUNNELS_PER_CLIENT \<le> length (getTunnelsByWs m w)
        \<and> requested \<noteq> [] \<and> \<not> isValidSubdomain requested \<longrightarrow>
      registerTunnel w (Some requested) port info draws tid now m =
        Some (Failure ''Invalid subdomain format'' INVALID_SUBDOMAIN, m))
   \<and> (MAX_TUNNELS_PER_CLIENT \<le> length (getTunnelsByWs m w)
        \<and> isValidSubdomain requested
        \<and> (requested \<in> set reservedSubdomains \<or> has (tunnelsBySubdomain m) requested) \<longrightarrow>
      (\<exists>msg. registerTunnel w (Some requested) port info draws tid now m =
        Some (Failure msg SUBDOMAIN_TAKEN, m)))
   \<and> (MAX_TUNNELS_PER_CLIENT \<le> length (getTunnelsByWs m w)
        \<and> isValidSubdomain requested
        \<and> requested \<notin> set reservedSubdomains \<and> \<not> has (tunnelsBySubdomain m) requested \<longrightarrow>
      registerTunnel w (Some requested) port info draws tid now m =
        Some (Failure ''Maximum tunnels per client exceeded'' TUNNEL_LIMIT_EXCEEDED, m))
   \<and> (registerTunnel w req port info draws tid now m =
          Some (Failure msg' TUNNEL_LIMIT_EXCEEDED, m') \<longrightarrow>
      MAX_TUNNELS_PER_CLIENT \<le> length (getTunnelsByWs m w) \<and> m' = m
      \<and> (\<forall>s. req = Some s \<and> s \<noteq> [] \<longrightarrow>
            isValidSubdomain s \<and> s \<notin> set reservedSubdomains
            \<and> \<not> has (tunnelsBySubdomain m) s))"
proof (intro conjI impI)
  show "MAX_TUNNELS_PER_CLIENT = 10" by (simp add: MAX_TUNNELS_PER_CLIENT_def)
next
  assume "MAX_TUNNELS_PER_CLIENT \<le> length (getTunnelsByWs m w)
        \<and> requested \<noteq> [] \<and> \<not> isValidSubdomain requested"
  then show "registerTunnel w (Some requested) port info draws tid now m =
        Some (Failure ''Invalid subdomain format'' INVALID_SUBDOMAIN, m)"
    by (simp add: registerTunnel_invalid)
next
  assume a: "MAX_TUNNELS_PER_CLIENT \<le> length (getTunnelsByWs m w)
        \<and> isValidSubdomain requested
        \<and> (requested \<in> set reservedSubdomains \<or> has (tunnelsBySubdomain m) requested)"
  then have l: "toLowerCase requested = requested" by (simp add: isValidSubdomain_lowercase)
  show "\<exists>msg. registerTunnel w (Some requested) port info draws tid now m =
        Some (Failure msg SUBDOMAIN_TAKEN, m)"
  proof (cases "requested \<in> set reservedSubdomains")
    case True
    with a l have "registerTunnel w (Some requested) port info draws tid now m =
        Some (Failure ''Subdomain is reserved'' SUBDOMAIN_TAKEN, m)"
      by (simp add: registerTunnel_reserved)
    then show ?thesis by blast
  next
    case False
    with a l have "registerTunnel w (Some requested) port info draws tid now m =
        Some (Failure ''Subdomain is already in use'' SUBDOMAIN_TAKEN, m)"
      by (simp add: registerTunnel_in_use)
    then show ?thesis by blast
  qed
next
  assume a: "MAX_TUNNELS_PER_CLIENT \<le> length (getTunnelsByWs m w)
        \<and> isValidSubdomain requested
        \<and> requested \<notin> set reservedSubdomains \<and> \<not> has (tunnelsBySubdomain m) requested"
  then have "toLowerCase requested = requested" "requested \<noteq> []"
    by (simp_all add: isValidSubdomain_lowercase isValidSubdomain_nonempty)
  with a show "registerTunnel w (Some requested) port info draws tid now m =
        Some (Failure ''Maximum tunnels per client exceeded'' TUNNEL_LIMIT_EXCEEDED, m)"
    by (simp add: registerTunnel_def)
next
  assume a: "registerTunnel w req port info draws tid now m =
          Some (Failure msg' TUNNEL_LIMIT_EXCEEDED, m')"
  from registerTunnel_limit(1) [OF a]
  show "MAX_TUNNELS_PER_CLIENT \<le> length (getTunnelsByWs m w)" .
  from registerTunnel_Failure [OF a] show "m' = m" .
  show "\<forall>s. req = Some s \<and> s \<noteq> [] \<longrightarrow>
            isValidSubdomain s \<and> s \<notin> set reservedSubdomains
            \<and> \<not> has (tunnelsBySubdomain m) s"
  proof (intro allI impI)
    fix s
    assume s: "req = Some s \<and> s \<noteq> []"
    then have "isValidSubdomain s \<and> toLowerCase s \<notin> set reservedSubdomains
           \<and> \<not> has (tunnelsBySubdomain m) (toLowerCase s)"
      using registerTunnel_limit(2) [OF a, of s] by blast
    moreover from this have "toLowerCase s = s" by (simp add: isValidSubdomain_lowercase)
    ultimately show "isValidSubdomain s \<and> s \<notin> set reservedSubdomains
            \<and> \<not> has (tunnelsBySubdomain m) s" by simp
  qed
qed

lemma ten_registrations_ws:
  "getTunnelsByWs (the (run ten_registrations new_TunnelManager)) 1 = [0, 1, 2, 3, 4, 5, 6, 7, 8, 9]"
  by (simp add: ten_registrations_def eval_registry)

lemma ten_registrations_keys:
  "map fst (tunnelsBySubdomain (the (run ten_registrations new_TunnelManager))) =
           [''aaaaaaa0'', ''aaaaaaa1'', ''aaaaaaa2'', ''aaaaaaa3'', ''aaaaaaa4'',
            ''aaaaaaa5'', ''aaaaaaa6'', ''aaaaaaa7'', ''aaaaaaa8'', ''aaaaaaa9'']"
  by (simp add: ten_registrations_def eval_registry)

lemma valid_aaaaaaa0: "isValidSubdomain ''aaaaaaa0''"
  by (simp add: isValidSubdomain_iff subdomain_grammar_def is_lower_alnum_def is_label_char_def)

theorem limit_checked_after_subdomain_witness:
  "length (getTunnelsByWs (the (run ten_registrations new_TunnelManager)) 1) = 10
   \<and> registerTunnel 1 (Some ''Demo1'') 8080 [] [] ''BBBBBBBBBBBB'' 1
        (the (run ten_registrations new_TunnelManager)) =
      Some (Failure ''Invalid subdomain format'' INVALID_SUBDOMAIN,
        the (run ten_registrations new_TunnelManager))
   \<and> registerTunnel 1 (Some ''admin'') 8080 [] [] ''BBBBBBBBBBBB'' 1
        (the (run ten_registrations new_TunnelManager)) =
      Some (Failure ''Subdomain is reserved'' SUBDOMAIN_TAKEN,
        the (run ten_registrations new_TunnelManager))
   \<and> registerTunnel 1 (Some ''aaaaaaa0'') 8080 [] [] ''BBBBBBBBBBBB'' 1
        (the (run ten_registrations new_TunnelManager)) =
      Some (Failure ''Subdomain is already in use'' SUBDOMAIN_TAKEN,
        the (run ten_registrations new_TunnelManager))
   \<and> registerTunnel 1 (Some ''demo1'') 8080 [] [] ''BBBBBBBBBBBB'' 1
        (the (run ten_registrations new_TunnelManager)) =
      Some (Failure ''Maximum tunnels per client exceeded'' TUNNEL_LIMIT_EXCEEDED,
        the (run ten_registrations new_TunnelManager))"
proof -
  let ?m = "the (run ten_registrations new_TunnelManager)"
  note ws = ten_registrations_ws
  note keys = ten_registrations_keys
  have len: "length (getTunnelsByWs ?m 1) = 10"
    unfolding ws by simp
  have full: "MAX_TUNNELS_PER_CLIENT \<le> length (getTunnelsByWs ?m 1)"
    unfolding len by (simp add: MAX_TUNNELS_PER_CLIENT_def)
  have dom: "has (tunnelsBySubdomain ?m) s \<longleftrightarrow> s \<in> set (map fst (tunnelsBySubdomain ?m))" for s
    by (simp add: has_def map_of_eq_None_iff)
  have live: "has (tunnelsBySubdomain ?m) ''aaaaaaa0''" "\<not> has (tunnelsBySubdomain ?m) ''demo1''"
    unfolding dom keys by simp_all
  have res: "''admin'' \<in> set reservedSubdomains" "''aaaaaaa0'' \<notin> set reservedSubdomains"
    "''demo1'' \<notin> set reservedSubdomains"
    by (simp_all add: reservedSubdomains_def)
  note t = limit_checked_after_subdomain [where m = ?m and w = 1 and port = 8080 and info = "[]"
      and draws = "[]" and tid = "''BBBBBBBBBBBB''" and now = 1]
  have 1: "registerTunnel 1 (Some ''Demo1'') 8080 [] [] ''BBBBBBBBBBBB'' 1 ?m =
      Some (Failure ''Invalid subdomain format'' INVALID_SUBDOMAIN, ?m)"
    using t [where requested = "''Demo1''"] full invalid_Demo1 by simp
  have 2: "registerTunnel 1 (Some ''admin'') 8080 [] [] ''BBBBBBBBBBBB'' 1 ?m =
      Some (Failure ''Subdomain is reserved'' SUBDOMAIN_TAKEN, ?m)"
    using full valid_admin res by (simp add: registerTunnel_reserved isValidSubdomain_lowercase)
  have 3: "registerTunnel 1 (Some ''aaaaaaa0'') 8080 [] [] ''BBBBBBBBBBBB'' 1 ?m =
      Some (Failure ''Subdomain is already in use'' SUBDOMAIN_TAKEN, ?m)"
    using valid_aaaaaaa0 res live by (simp add: registerTunnel_in_use isValidSubdomain_lowercase)
  have 4: "registerTunnel 1 (Some ''demo1'') 8080 [] [] ''BBBBBBBBBBBB'' 1 ?m =
      Some (Failure ''Maximum tunnels per client exceeded'' TUNNEL_LIMIT_EXCEEDED, ?m)"
    using t [where requested = "''demo1''"] full valid_demo1 res live by simp
  from len 1 2 3 4 show ?thesis by (intro conjI)
qed

lemma ten_registrations_run:
  "run ten_registrations new_TunnelManager \<noteq> None"
  by (simp add: ten_registrations_def eval_registry)

theorem limit_checked_after_subdomain_counterexample:
  "\<not> isValidSubdomain []
   \<and> run ten_registrations new_TunnelManager \<noteq> None
   \<and> length (getTunnelsByWs (the (run ten_registrations new_TunnelManager)) 1) = 10
   \<and> registerTunnel 1 (Some []) 8080 [] [''bbbbbbbb''] ''BBBBBBBBBBBB'' 1
        (the (run ten_registrations new_TunnelManager)) =
      Some (Failure ''Maximum tunnels per client exceeded'' TUNNEL_LIMIT_EXCEEDED,
        the (run ten_registrations new_TunnelManager))"
proof -
  let ?m = "the (run ten_registrations new_TunnelManager)"
  have len: "length (getTunnelsByWs ?m 1) = 10"
    unfolding ten_registrations_ws by simp
  have dom: "has (tunnelsBySubdomain ?m) s \<longleftrightarrow> s \<in> set (map fst (tunnelsBySubdomain ?m))" for s
    by (simp add: has_def map_of_eq_None_iff)
  have free: "\<not> has (tunnelsBySubdomain ?m) ''bbbbbbbb''"
    unfolding dom ten_registrations_keys by simp
  have gen: "generate_loop ?m [''bbbbbbbb''] = Some ''bbbbbbbb''"
    using free by (simp add: reservedSubdomains_def)
  have reg: "registerTunnel 1 (Some []) 8080 [] [''bbbbbbbb''] ''BBBBBBBBBBBB'' 1 ?m =
      Some (Failure ''Maximum tunnels per client exceeded'' TUNNEL_LIMIT_EXCEEDED, ?m)"
    unfolding registerTunnel_def using gen len by (simp add: MAX_TUNNELS_PER_CLIENT_def)
  have inv: "\<not> isValidSubdomain []" by (simp add: isValidSubdomain_def)
  from inv ten_registrations_run len reg show ?thesis by (intro conjI)
qed

section \<open>Case folding\<close>

lemma generated_subdomain_lowercase: "generated_subdomain s \<Longrightarrow> toLowerCase s = s"
proof -
  assume "generated_subdomain s"
  then have "list_all is_lower_alnum s" by (simp add: generated_subdomain_def)
  then have "list_all is_label_char s" by (simp add: list_all_iff is_label_char_def)
  then show ?thesis by (rule toLowerCase_label)
qed

lemma keys_lowercase_new: "keys_lowercase new_TunnelManager"
  by (simp add: keys_lowercase_def new_TunnelManager_def)

lemma keys_lowercase_registered:
  assumes "keys_lowercase m" "toLowerCase sub = sub"
  shows "keys_lowercase (registered w port info tid now sub m)"
  using assms unfolding keys_lowercase_def registered_def
  by (simp add: update_conv')

lemma keys_lowercase_closeTunnel:
  assumes "keys_lowercase m"
  shows "keys_lowercase (closeTunnel tid reason m)"
proof (cases "map_of (tunnelsById m) tid")
  case None
  with assms show ?thesis by (simp add: closeTunnel_unknown)
next
  case (Some r)
  have "map_of (tunnelsBySubdomain m) d = Some r'"
    if "map_of (tunnelsBySubdomain (closeTunnel tid reason m)) d = Some r'" for d r'
    using that by (simp add: closeTunnel_fields(2) [OF Some] delete_conv' split: if_splits)
  with assms show ?thesis unfolding keys_lowercase_def by blast
qed

lemma keys_lowercase_fold_closeTunnel:
  "keys_lowercase m \<Longrightarrow> keys_lowercase (fold (\<lambda>x. closeTunnel (f x) reason) xs m)"
  by (induction xs arbitrary: m) (simp_all add: keys_lowercase_closeTunnel)

lemma keys_lowercase_registerTunnel:
  assumes low: "keys_lowercase m"
    and draws: "list_all generated_subdomain draws"
    and reg: "registerTunnel w req port info draws tid now m = Some (res, m')"
  shows "keys_lowercase m'"
proof (cases res)
  case (Success r)
  from registerTunnel_Success [OF reg [unfolded Success]]
  obtain sub where m': "m' = registered w port info tid now sub m"
    and sub: "case req of
                Some requested \<Rightarrow>
                  if requested \<noteq> [] then isValidSubdomain requested \<and> sub = toLowerCase requested
                  else generate_loop m draws = Some sub
              | None \<Rightarrow> generate_loop m draws = Some sub"
    by blast
  have "toLowerCase sub = sub"
  proof (cases "\<exists>requested. req = Some requested \<and> requested \<noteq> []")
    case True
    then obtain requested where "req = Some requested" "requested \<noteq> []" by blast
    with sub have "isValidSubdomain requested" "sub = toLowerCase requested" by simp_all
    then show ?thesis by (simp add: isValidSubdomain_lowercase)
  next
    case False
    with sub have "generate_loop m draws = Some sub"
      by (cases req) (auto split: if_splits)
    from generate_loop_Some [OF this] have "sub \<in> set draws" by simp
    with draws have "generated_subdomain sub" by (simp add: list_all_iff)
    then show ?thesis by (rule generated_subdomain_lowercase)
  qed
  with low show ?thesis unfolding m' by (rule keys_lowercase_registered)
next
  case (Failure msg code)
  from registerTunnel_Failure [OF reg [unfolded Failure]] low show ?thesis by simp
qed

lemma keys_lowercase_step:
  assumes "keys_lowercase m" "generator_draws x" "step x m = Some m'"
  shows "keys_lowercase m'"
proof (cases x)
  case (RegisterTunnel w req port info draws tid now)
  with assms(3) obtain res where "registerTunnel w req port info draws tid now m = Some (res, m')"
    by auto
  with assms(1,2) RegisterTunnel show ?thesis
    by (auto intro: keys_lowercase_registerTunnel)
next
  case (CloseTunnel tid reason)
  with assms show ?thesis by (auto intro: keys_lowercase_closeTunnel)
next
  case (CloseTunnelsForWs w reason)
  with assms show ?thesis
    by (auto simp: closeTunnelsForWs_def intro: keys_lowercase_fold_closeTunnel)
next
  case CloseAll
  with assms show ?thesis
    by (auto simp: closeAll_def intro: keys_lowercase_fold_closeTunnel)
qed

lemma keys_lowercase_run:
  "keys_lowercase m \<Longrightarrow> list_all generator_draws xs \<Longrightarrow> run xs m = Some m' \<Longrightarrow> keys_lowercase m'"
proof (induction xs arbitrary: m)
  case Nil
  then show ?case by simp
next
  case (Cons x xs)
  from Cons.prems(3) obtain m1 where m1: "step x m = Some m1" and rest: "run xs m1 = Some m'"
    by (auto split: option.splits)
  from Cons.prems(2) have g: "generator_draws x" and gs: "list_all generator_draws xs" by simp_all
  from keys_lowercase_step [OF Cons.prems(1) g m1] have "keys_lowercase m1" .
  from Cons.IH [OF this gs rest] show ?case .
qed

lemma registered_lookup:
  "heap (registered w port info tid now sub m) ! length (heap m) = new_Tunnel tid sub w port info now"
  "map_of (tunnelsBySubdomain (registered w port info tid now sub m)) sub = Some (length (heap m))"
  by (simp_all add: registered_def update_conv')

text \<open>
  C8 (as amended). A requested subdomain that differs from its lowercase form is rejected
  with \<open>INVALID_SUBDOMAIN\<close>, so a registration that succeeds with a requested subdomain
  registers that subdomain as it was given, which is its lowercase form.
  \<open>getTunnelBySubdomain\<close> looks up the lowercase form of its argument: every case
  variant of a subdomain just registered, and of any subdomain in a registry reached by a
  run whose generated subdomains are drawn from the lowercase alphabet, finds the tunnel
  that holds it, and the result is nothing when no live tunnel holds the lowercase form.
\<close>

theorem subdomain_case_folding:
  "(toLowerCase requested \<noteq> requested \<longrightarrow>
      registerTunnel w (Some requested) port info draws tid now m =
        Some (Failure ''Invalid subdomain format'' INVALID_SUBDOMAIN, m))
   \<and> (requested \<noteq> []
        \<and> registerTunnel w (Some requested) port info draws tid now m = Some (Success r, m') \<longrightarrow>
      toLowerCase requested = requested \<and> subdomain (heap m' ! r) = requested
      \<and> (\<forall>s. toLowerCase s = toLowerCase requested \<longrightarrow>
            getTunnelBySubdomain m' (Some s) = Some r))
   \<and> getTunnelBySubdomain m (Some s) = map_of (tunnelsBySubdomain m) (toLowerCase s)
   \<and> (run ops new_TunnelManager = Some m1 \<and> list_all generator_draws ops
        \<and> map_of (tunnelsBySubdomain m1) d = Some r1 \<and> toLowerCase s1 = toLowerCase d \<longrightarrow>
      getTunnelBySubdomain m1 (Some s1) = Some r1)
   \<and> (\<not> has (tunnelsBySubdomain m) (toLowerCase s) \<longrightarrow> getTunnelBySubdomain m (Some s) = None)"
proof (intro conjI impI)
  assume a: "toLowerCase requested \<noteq> requested"
  then have "\<not> isValidSubdomain requested" using isValidSubdomain_lowercase by blast
  moreover from a have "requested \<noteq> []" by (auto simp: toLowerCase_def)
  ultimately show "registerTunnel w (Some requested) port info draws tid now m =
        Some (Failure ''Invalid subdomain format'' INVALID_SUBDOMAIN, m)"
    by (simp add: registerTunnel_invalid)
next
  assume a: "requested \<noteq> []
        \<and> registerTunnel w (Some requested) port info draws tid now m = Some (Success r, m')"
  then have reg: "registerTunnel w (Some requested) port info draws tid now m = Some (Success r, m')"
    and ne: "requested \<noteq> []" by simp_all
  from registerTunnel_Success [OF reg] ne
  obtain sub where r: "r = length (heap m)" and m': "m' = registered w port info tid now sub m"
    and v: "isValidSubdomain requested" and sub: "sub = toLowerCase requested"
    by auto
  from v have low: "toLowerCase requested = requested" by (rule isValidSubdomain_lowercase)
  then show "toLowerCase requested = requested" .
  show "subdomain (heap m' ! r) = requested"
    unfolding m' r by (simp add: registered_lookup(1) sub low)
  show "\<forall>s. toLowerCase s = toLowerCase requested \<longrightarrow> getTunnelBySubdomain m' (Some s) = Some r"
    unfolding m' r by (simp add: getTunnelBySubdomain_def sub registered_lookup(2))
next
  show "getTunnelBySubdomain m (Some s) = map_of (tunnelsBySubdomain m) (toLowerCase s)"
    by (simp add: getTunnelBySubdomain_def)
next
  assume a: "run ops new_TunnelManager = Some m1 \<and> list_all generator_draws ops
        \<and> map_of (tunnelsBySubdomain m1) d = Some r1 \<and> toLowerCase s1 = toLowerCase d"
  then have "keys_lowercase m1"
    using keys_lowercase_run [OF keys_lowercase_new, of ops m1] by simp
  with a have "toLowerCase d = d" unfolding keys_lowercase_def by blast
  with a show "getTunnelBySubdomain m1 (Some s1) = Some r1"
    by (simp add: getTunnelBySubdomain_def)
next
  assume "\<not> has (tunnelsBySubdomain m) (toLowerCase s)"
  then show "getTunnelBySubdomain m (Some s) = None"
    by (simp add: getTunnelBySubdomain_def has_def)
qed

lemma lower_Demo1: "toLowerCase ''Demo1'' = ''demo1''"
  by code_simp

lemma lower_DEMO1: "toLowerCase ''DEMO1'' = ''demo1''"
  by code_simp

lemma lower_ABCDefgh: "toLowerCase ''ABCDefgh'' = ''abcdefgh''"
  by code_simp

lemma lower_abcdefgh: "toLowerCase ''abcdefgh'' = ''abcdefgh''"
  by code_simp

lemma lower_demo1: "toLowerCase ''demo1'' = ''demo1''"
  by (rule isValidSubdomain_lowercase [OF valid_demo1])

theorem subdomain_case_folding_witness:
  "registerTunnel 1 (Some ''Demo1'') 8080 [] [] ''AAAAAAAAAAAA'' 100 new_TunnelManager =
     Some (Failure ''Invalid subdomain format'' INVALID_SUBDOMAIN, new_TunnelManager)
   \<and> getTunnelBySubdomain
        (snd (the (registerTunnel 1 (Some ''demo1'') 8080 [] [] ''AAAAAAAAAAAA'' 100 new_TunnelManager)))
        (Some ''DEMO1'') = Some 0
   \<and> getTunnelBySubdomain
        (the (run [RegisterTunnel 1 None 8080 [] [''abcdefgh''] ''AAAAAAAAAAAA'' 100] new_TunnelManager))
        (Some ''ABCDefgh'') = Some 0
   \<and> getTunnelBySubdomain new_TunnelManager (Some ''Demo1'') = None"
proof -
  let ?m1 = "\<lparr>heap = [new_Tunnel ''AAAAAAAAAAAA'' ''demo1'' 1 8080 [] 100],
        tunnelsBySubdomain = [(''demo1'', 0)], tunnelsById = [(''AAAAAAAAAAAA'', 0)],
        tunnelsByWs = [(1, [0])], emitted = [TunnelCreated 0], called = []\<rparr>"
  let ?m2 = "\<lparr>heap = [new_Tunnel ''AAAAAAAAAAAA'' ''abcdefgh'' 1 8080 [] 100],
        tunnelsBySubdomain = [(''abcdefgh'', 0)], tunnelsById = [(''AAAAAAAAAAAA'', 0)],
        tunnelsByWs = [(1, [0])], emitted = [TunnelCreated 0], called = []\<rparr>"
  let ?ops = "[RegisterTunnel 1 None 8080 [] [''abcdefgh''] ''AAAAAAAAAAAA'' 100]"
  have reg: "registerTunnel 1 (Some ''demo1'') 8080 [] [] ''AAAAAAAAAAAA'' 100 new_TunnelManager =
      Some (Success 0, ?m1)"
    by (simp add: eval_registry valid_demo1)
  have run: "run ?ops new_TunnelManager = Some ?m2"
    by (simp add: eval_registry)
  have gen: "list_all generator_draws ?ops"
    by (simp add: generated_subdomain_def is_lower_alnum_def)
  have key: "map_of (tunnelsBySubdomain ?m2) ''abcdefgh'' = Some 0" by simp
  have free: "\<not> has (tunnelsBySubdomain new_TunnelManager) (toLowerCase ''Demo1'')"
    by (simp add: has_def new_TunnelManager_def)
  have up: "toLowerCase ''Demo1'' \<noteq> ''Demo1''" by (simp add: lower_Demo1)
  have ne: "''demo1'' \<noteq> []" by simp
  note t = subdomain_case_folding [where m = new_TunnelManager and w = 1 and port = 8080
      and info = "[]" and draws = "[]" and tid = "''AAAAAAAAAAAA''" and now = 100 and s = "''Demo1''"
      and ops = ?ops and ?m1.0 = ?m2 and d = "''abcdefgh''" and ?r1.0 = 0 and ?s1.0 = "''ABCDefgh''"]
  have 1: "registerTunnel 1 (Some ''Demo1'') 8080 [] [] ''AAAAAAAAAAAA'' 100 new_TunnelManager =
     Some (Failure ''Invalid subdomain format'' INVALID_SUBDOMAIN, new_TunnelManager)"
    using t [where requested = "''Demo1''"] up by blast
  have "\<forall>s. toLowerCase s = toLowerCase ''demo1'' \<longrightarrow> getTunnelBySubdomain ?m1 (Some s) = Some 0"
    using t [where requested = "''demo1''" and r = 0 and m' = ?m1] reg ne by blast
  then have 2: "getTunnelBySubdomain ?m1 (Some ''DEMO1'') = Some 0"
    by (simp add: lower_DEMO1 lower_demo1)
  have 3: "getTunnelBySubdomain ?m2 (Some ''ABCDefgh'') = Some 0"
    using t [where requested = "''demo1''"] run gen key
    by (simp only: lower_ABCDefgh lower_abcdefgh simp_thms)
  have 4: "getTunnelBySubdomain new_TunnelManager (Some ''Demo1'') = None"
    using t [where requested = "''demo1''"] free by blast
  from 1 2 3 4 show ?thesis by (simp only: reg run option.sel snd_conv simp_thms)
qed

theorem subdomain_case_folding_counterexample:
  "toLowerCase ''Demo1'' = ''demo1''
   \<and> isValidSubdomain ''demo1''
   \<and> registerTunnel 1 (Some ''Demo1'') 8080 [] [] ''AAAAAAAAAAAA'' 100 new_TunnelManager =
       Some (Failure ''Invalid subdomain format'' INVALID_SUBDOMAIN, new_TunnelManager)"
  by (simp add: lower_Demo1 valid_demo1 registerTunnel_invalid invalid_Demo1)

section \<open>Effects of closing a tunnel\<close>

lemma closeTunnel_removes_id: "map_of (tunnelsById (closeTunnel tid reason m)) tid = None"
proof (cases "map_of (tunnelsById m) tid")
  case None
  then show ?thesis by (simp add: closeTunnel_unknown)
next
  case (Some r)
  show ?thesis by (simp add: closeTunnel_fields(3) [OF Some] delete_conv')
qed

lemma closeTunnel_idempotent:
  "closeTunnel tid reason' (closeTunnel tid reason m) = closeTunnel tid reason m"
  by (rule closeTunnel_unknown [OF closeTunnel_removes_id])

lemma closeTunnel_not_live:
  assumes inv: "registry_inv m" and r: "map_of (tunnelsById m) tid = Some r"
  shows "r \<notin> set (live_tunnels (closeTunnel tid reason m))"
proof
  let ?m' = "closeTunnel tid reason m"
  assume "r \<in> set (live_tunnels ?m')"
  from registry_inv_live [OF registry_inv_closeTunnel [OF inv] this]
  have "map_of (tunnelsById ?m') (tunnelId (heap ?m' ! r)) = Some r" .
  moreover have "tunnelId (heap ?m' ! r) = tid"
    using registry_inv_byId(2) [OF inv r]
    by (simp add: closeTunnel_fields(1) [OF r] heap_clear_keys)
  ultimately show False by (simp add: closeTunnel_removes_id)
qed

lemma live_tunnels_getTunnelsByWs: "r \<in> set (getTunnelsByWs m w) \<Longrightarrow> r \<in> set (live_tunnels m)"
proof -
  assume a: "r \<in> set (getTunnelsByWs m w)"
  then obtain rs where rs: "map_of (tunnelsByWs m) w = Some rs"
    by (cases "map_of (tunnelsByWs m) w") (simp_all add: getTunnelsByWs_def)
  with a have "r \<in> set rs" by (simp add: getTunnelsByWs_def)
  moreover from rs have "(w, rs) \<in> set (tunnelsByWs m)" by (rule map_of_SomeD)
  ultimately show ?thesis unfolding live_tunnels_def by force
qed

text \<open>
  \<open>closeTunnel\<close> is idempotent: a second call with the same identifier returns the
  manager unchanged. For a live tunnel of a registry that satisfies the invariant, the
  call removes the tunnel from the identifier map, from the subdomain map and from the
  array of its connection, so that no index refers to it any more; it calls the \<open>reject\<close>
  closure of every pending request of the tunnel, in order, with the error
  \<open>Tunnel closed\<close>; it empties the table of pending requests; and it emits one
  \<open>tunnel:closed\<close> event that carries the tunnel and the reason.
\<close>

lemma closeTunnel_effects:
  "closeTunnel tid reason' (closeTunnel tid reason m) = closeTunnel tid reason m
   \<and> (registry_inv m \<and> map_of (tunnelsById m) tid = Some r \<longrightarrow>
        map_of (tunnelsById (closeTunnel tid reason m)) tid = None
      \<and> map_of (tunnelsBySubdomain (closeTunnel tid reason m)) (subdomain (heap m ! r)) = None
      \<and> r \<notin> set (getTunnelsByWs (closeTunnel tid reason m) (ws (heap m ! r)))
      \<and> r \<notin> set (live_tunnels (closeTunnel tid reason m))
      \<and> called (closeTunnel tid reason m) =
          called m @ map (\<lambda>(requestId, pending). Reject (handle pending) ''Tunnel closed'')
                       (pendingRequests (heap m ! r))
      \<and> pendingRequests (heap (closeTunnel tid reason m) ! r) = []
      \<and> emitted (closeTunnel tid reason m) = emitted m @ [TunnelClosed r reason])"
proof (intro conjI impI)
  show "closeTunnel tid reason' (closeTunnel tid reason m) = closeTunnel tid reason m"
    by (rule closeTunnel_idempotent)
next
  assume a: "registry_inv m \<and> map_of (tunnelsById m) tid = Some r"
  then have inv: "registry_inv m" and r: "map_of (tunnelsById m) tid = Some r" by simp_all
  note f = closeTunnel_fields [OF r, of reason]
  show "map_of (tunnelsById (closeTunnel tid reason m)) tid = None"
    by (rule closeTunnel_removes_id)
  show "map_of (tunnelsBySubdomain (closeTunnel tid reason m)) (subdomain (heap m ! r)) = None"
    by (simp add: f(2) delete_conv')
  show nl: "r \<notin> set (live_tunnels (closeTunnel tid reason m))"
    by (rule closeTunnel_not_live [OF inv r])
  show "r \<notin> set (getTunnelsByWs (closeTunnel tid reason m) (ws (heap m ! r)))"
    using nl live_tunnels_getTunnelsByWs by blast
  show "called (closeTunnel tid reason m) =
          called m @ map (\<lambda>(requestId, pending). Reject (handle pending) ''Tunnel closed'')
                       (pendingRequests (heap m ! r))"
    by (rule f(5))
  show "pendingRequests (heap (closeTunnel tid reason m) ! r) = []"
    using registry_inv_byId(1) [OF inv r] by (simp add: f(1))
  show "emitted (closeTunnel tid reason m) = emitted m @ [TunnelClosed r reason]"
    by (rule f(4))
qed

lemma closeTunnel_effects_example:
  "closeTunnel ''AAAAAAAAAAAA'' ''Client disconnected''
     \<lparr>heap = [(new_Tunnel ''AAAAAAAAAAAA'' ''demo1'' 1 8080 [] 100)
                \<lparr>pendingRequests := [(''00000000000000a1'', \<lparr>handle = 5, startTime = 101\<rparr>),
                                      (''00000000000000a2'', \<lparr>handle = 6, startTime = 102\<rparr>)]\<rparr>],
        tunnelsBySubdomain = [(''demo1'', 0)], tunnelsById = [(''AAAAAAAAAAAA'', 0)],
        tunnelsByWs = [(1, [0])], emitted = [TunnelCreated 0], called = []\<rparr> =
     \<lparr>heap = [new_Tunnel ''AAAAAAAAAAAA'' ''demo1'' 1 8080 [] 100],
        tunnelsBySubdomain = [], tunnelsById = [], tunnelsByWs = [],
        emitted = [TunnelCreated 0, TunnelClosed 0 ''Client disconnected''],
        called = [Reject 5 ''Tunnel closed'', Reject 6 ''Tunnel closed'']\<rparr>
   \<and> closeTunnel ''AAAAAAAAAAAA'' ''Server shutdown''
     \<lparr>heap = [new_Tunnel ''AAAAAAAAAAAA'' ''demo1'' 1 8080 [] 100],
        tunnelsBySubdomain = [], tunnelsById = [], tunnelsByWs = [],
        emitted = [TunnelCreated 0, TunnelClosed 0 ''Client disconnected''],
        called = [Reject 5 ''Tunnel closed'', Reject 6 ''Tunnel closed'']\<rparr> =
     \<lparr>heap = [new_Tunnel ''AAAAAAAAAAAA'' ''demo1'' 1 8080 [] 100],
        tunnelsBySubdomain = [], tunnelsById = [], tunnelsByWs = [],
        emitted = [TunnelCreated 0, TunnelClosed 0 ''Client disconnected''],
        called = [Reject 5 ''Tunnel closed'', Reject 6 ''Tunnel closed'']\<rparr>
   \<and> emitted
     \<lparr>heap = [new_Tunnel ''AAAAAAAAAAAA'' ''demo1'' 1 8080 [] 100],
        tunnelsBySubdomain = [], tunnelsById = [], tunnelsByWs = [],
        emitted = [TunnelCreated 0, TunnelClosed 0 ''Client disconnected''],
        called = [Reject 5 ''Tunnel closed'', Reject 6 ''Tunnel closed'']\<rparr> =
     [TunnelCreated 0, TunnelClosed 0 ''Client disconnected'']"
proof -
  let ?m = "\<lparr>heap = [(new_Tunnel ''AAAAAAAAAAAA'' ''demo1'' 1 8080 [] 100)
                \<lparr>pendingRequests := [(''00000000000000a1'', \<lparr>handle = 5, startTime = 101\<rparr>),
                                      (''00000000000000a2'', \<lparr>handle = 6, startTime = 102\<rparr>)]\<rparr>],
        tunnelsBySubdomain = [(''demo1'', 0)], tunnelsById = [(''AAAAAAAAAAAA'', 0)],
        tunnelsByWs = [(1, [0])], emitted = [TunnelCreated 0], called = []\<rparr>"
  let ?m' = "\<lparr>heap = [new_Tunnel ''AAAAAAAAAAAA'' ''demo1'' 1 8080 [] 100],
        tunnelsBySubdomain = [], tunnelsById = [], tunnelsByWs = [],
        emitted = [TunnelCreated 0, TunnelClosed 0 ''Client disconnected''],
        called = [Reject 5 ''Tunnel closed'', Reject 6 ''Tunnel closed'']\<rparr>"
  have inv: "registry_inv ?m"
    by (simp add: registry_inv_def keys_distinct_def bySubdomain_ok_def byId_ok_def byWs_ok_def
        getTunnelsByWs_def new_Tunnel_def)
  have r: "map_of (tunnelsById ?m) ''AAAAAAAAAAAA'' = Some 0" by simp
  have c: "closeTunnel ''AAAAAAAAAAAA'' ''Client disconnected'' ?m = ?m'"
    by (simp add: closeTunnel_def new_Tunnel_def)
  note t = closeTunnel_effects [of "''AAAAAAAAAAAA''" "''Server shutdown''" "''Client disconnected''" ?m 0]
  from t have idem: "closeTunnel ''AAAAAAAAAAAA'' ''Server shutdown''
          (closeTunnel ''AAAAAAAAAAAA'' ''Client disconnected'' ?m) =
        closeTunnel ''AAAAAAAAAAAA'' ''Client disconnected'' ?m"
    by (rule conjunct1)
  note eff = t [THEN conjunct2, THEN mp, OF conjI [OF inv r]]
  from eff have "emitted (closeTunnel ''AAAAAAAAAAAA'' ''Client disconnected'' ?m) =
      emitted ?m @ [TunnelClosed 0 ''Client disconnected'']"
    by (elim conjE)
  then have ev: "emitted ?m' = [TunnelCreated 0, TunnelClosed 0 ''Client disconnected'']"
    unfolding c by simp
  from c idem [unfolded c] ev show ?thesis by (intro conjI)
qed


section \<open>Decoding a message\<close>

lemma MessageType_values:
  "map snd MessageType =
     [''tunnel:register'', ''tunnel:registered'', ''tunnel:close'', ''tunnel:closed'',
      ''http:request'', ''http:response'', ''http:error'', ''ping'', ''pong'', ''error'',
      ''inspect:request'', ''inspect:response'', ''replay:request'', ''replay:response'']"
  by (simp add: MessageType_def)

lemma MessageType_distinct_keys: "distinct (map fst MessageType)"
  by (simp add: MessageType_def)

lemma MessageType_at_key:
  assumes "(k, v) \<in> set MessageType"
  shows "MessageType_at (Some k) = JSValue (JStr v)"
  using assms MessageType_distinct_keys by (simp add: MessageType_at_def)

lemma MessageType_at_truthy:
  assumes "k \<in> set (map fst MessageType)"
  shows "truthy (MessageType_at (Some k))"
proof -
  from assms obtain v where kv: "(k, v) \<in> set MessageType" by auto
  then have "v \<in> set (map snd MessageType)" by force
  then have "v \<noteq> []" unfolding MessageType_values by auto
  with MessageType_at_key [OF kv] show ?thesis by simp
qed

lemma find_type_key:
  "truthy (MessageType_at (find (\<lambda>k. MessageType_at (Some k) = ty) (map fst MessageType)))
     \<longleftrightarrow> (\<exists>t \<in> set (map snd MessageType). ty = JSValue (JStr t))"
proof
  assume a: "truthy (MessageType_at (find (\<lambda>k. MessageType_at (Some k) = ty) (map fst MessageType)))"
  then obtain k where k: "find (\<lambda>k. MessageType_at (Some k) = ty) (map fst MessageType) = Some k"
    by (cases "find (\<lambda>k. MessageType_at (Some k) = ty) (map fst MessageType)")
      (simp_all add: MessageType_at_def)
  then have "k \<in> set (map fst MessageType)" and eq: "MessageType_at (Some k) = ty"
    by (auto simp: find_Some_iff)
  then obtain v where kv: "(k, v) \<in> set MessageType" by auto
  from MessageType_at_key [OF kv] eq have "ty = JSValue (JStr v)" by simp
  moreover from kv have "v \<in> set (map snd MessageType)" by force
  ultimately show "\<exists>t \<in> set (map snd MessageType). ty = JSValue (JStr t)" by blast
next
  assume "\<exists>t \<in> set (map snd MessageType). ty = JSValue (JStr t)"
  then obtain k t where kt: "(k, t) \<in> set MessageType" and ty: "ty = JSValue (JStr t)" by auto
  from MessageType_at_key [OF kt] ty have "MessageType_at (Some k) = ty" by simp
  moreover from kt have "k \<in> set (map fst MessageType)" by force
  ultimately have "\<exists>x \<in> set (map fst MessageType). MessageType_at (Some x) = ty" by blast
  then obtain k' where k': "find (\<lambda>k. MessageType_at (Some k) = ty) (map fst MessageType) = Some k'"
    by (cases "find (\<lambda>k. MessageType_at (Some k) = ty) (map fst MessageType)")
      (auto simp: find_None_iff)
  then have "k' \<in> set (map fst MessageType)" by (auto simp: find_Some_iff)
  from MessageType_at_truthy [OF this] show
    "truthy (MessageType_at (find (\<lambda>k. MessageType_at (Some k) = ty) (map fst MessageType)))"
    by (simp add: k')
qed

lemma get_property_type_field:
  "get_property parsed ''type'' = Some (JSValue (JStr t)) \<longleftrightarrow> type_field parsed = Some t"
  by (cases parsed) (auto simp: type_field_def split: option.splits json.splits)

lemma parseMessage_Some_iff:
  "parseMessage JSON_parse data = Some message \<longleftrightarrow>
     JSON_parse data = Some message
     \<and> (\<exists>t \<in> set (map snd MessageType). type_field message = Some t)"
proof (cases "JSON_parse data")
  case None
  then show ?thesis by (simp add: parseMessage_def)
next
  case (Some parsed)
  show ?thesis
  proof (cases "get_property parsed ''type''")
    case None
    then have "type_field parsed = None"
      by (cases parsed) (simp_all add: type_field_def)
    with None Some show ?thesis by (auto simp: parseMessage_def)
  next
    case ty: (Some ty)
    define K where "K \<longleftrightarrow> (\<exists>t \<in> set (map snd MessageType). type_field parsed = Some t)"
    have "(\<exists>t \<in> set (map snd MessageType). ty = JSValue (JStr t)) \<longleftrightarrow> K"
      unfolding K_def using get_property_type_field [of parsed] ty by auto
    with find_type_key [of ty]
    have f: "truthy (MessageType_at (find (\<lambda>k. MessageType_at (Some k) = ty) (map fst MessageType))) \<longleftrightarrow> K"
      and k: "K \<longleftrightarrow> (\<exists>t \<in> set (map snd MessageType). ty = JSValue (JStr t))"
      by simp_all
    have t: "truthy ty" if K
      using that unfolding k MessageType_values by auto
    have "parseMessage JSON_parse data = (if K then Some parsed else None)"
      using t by (simp add: parseMessage_def Some ty f)
    moreover have "(JSON_parse data = Some message
        \<and> (\<exists>t \<in> set (map snd MessageType). type_field message = Some t))
        \<longleftrightarrow> (parsed = message \<and> K)"
      unfolding K_def Some by blast
    ultimately show ?thesis by (simp only: split: if_splits) auto
  qed
qed

lemma parseMessage_None_iff:
  "parseMessage JSON_parse data = None \<longleftrightarrow>
     (case JSON_parse data of
        None \<Rightarrow> True
      | Some parsed \<Rightarrow>
          (case type_field parsed of
             None \<Rightarrow> True
           | Some t \<Rightarrow> t \<notin> set (map snd MessageType)))"
proof -
  have "parseMessage JSON_parse data = None \<longleftrightarrow> (\<forall>message. parseMessage JSON_parse data \<noteq> Some message)"
    by auto
  also have "\<dots> \<longleftrightarrow> (\<forall>message. \<not> (JSON_parse data = Some message
     \<and> (\<exists>t \<in> set (map snd MessageType). type_field message = Some t)))"
    by (simp only: parseMessage_Some_iff)
  also have "\<dots> \<longleftrightarrow> (case JSON_parse data of
        None \<Rightarrow> True
      | Some parsed \<Rightarrow>
          (case type_field parsed of
             None \<Rightarrow> True
           | Some t \<Rightarrow> t \<notin> set (map snd MessageType)))"
    by (auto split: option.splits)
  finally show ?thesis .
qed

lemma handleMessage_invalid:
  assumes "parseMessage JSON_parse data = None"
  shows "handleMessage JSON_parse readyState now data =
           (if readyState = 1
            then [Sent (createErrorMessage ''Invalid message format'' ''INVALID_MESSAGE'' now)]
            else [])"
  using assms by (simp add: handleMessage_def send_def)

lemma handleMessage_valid_no_invalid_reply:
  assumes "parseMessage JSON_parse data \<noteq> None"
  shows "Sent (createErrorMessage ''Invalid message format'' ''INVALID_MESSAGE'' now)
           \<notin> set (handleMessage JSON_parse readyState now data)"
proof -
  from assms obtain message where "parseMessage JSON_parse data = Some message" by auto
  then show ?thesis
    by (auto simp: handleMessage_def send_def createErrorMessage_def createPongMessage_def
        split: option.splits jsvalue.splits if_splits)
qed

lemma handleMessage_unhandled:
  assumes p: "JSON_parse data = Some parsed" and t: "type_field parsed = Some t"
    and u: "t \<in> set [''tunnel:registered'', ''tunnel:closed'', ''http:request'', ''error'',
                ''inspect:request'', ''inspect:response'', ''replay:request'', ''replay:response'']"
  shows "handleMessage JSON_parse readyState now data =
           send readyState (createErrorMessage (''Unknown message type: '' @ t) ''UNKNOWN_MESSAGE'' now)"
proof -
  from u have "t \<in> set (map snd MessageType)" unfolding MessageType_values by auto
  with p t have pm: "parseMessage JSON_parse data = Some parsed"
    by (simp add: parseMessage_Some_iff)
  from t obtain fs where fs: "parsed = JObj fs" and ty: "map_of fs ''type'' = Some (JStr t)"
    by (cases parsed) (auto simp: type_field_def split: option.splits json.splits)
  from u show ?thesis
    by (auto simp: handleMessage_def pm fs ty)
qed

text \<open>
  C3 (as amended). Decoding fails (\<open>parseMessage\<close> returns \<open>null\<close>) if and only if
  \<open>JSON.parse\<close> throws or the parsed value has no \<open>type\<close> that is one of the fourteen
  strings of \<open>MessageType\<close>: the seven of the specification and \<open>tunnel:closed\<close>,
  \<open>error\<close>, \<open>inspect:request\<close>, \<open>inspect:response\<close>, \<open>replay:request\<close>,
  \<open>replay:response\<close>. A message that is decoded is returned as parsed. When decoding
  fails, \<open>handleMessage\<close> does nothing but send, if the connection is open, the error
  message with the code \<open>INVALID_MESSAGE\<close>; it sends that message for no decoded
  message. A decoded message of a type that has no handler is answered by the error
  message with the code \<open>UNKNOWN_MESSAGE\<close>.
\<close>

theorem parseMessage_fails_iff:
  "(parseMessage JSON_parse data = None \<longleftrightarrow>
      (case JSON_parse data of
         None \<Rightarrow> True
       | Some parsed \<Rightarrow>
           (case type_field parsed of
              None \<Rightarrow> True
            | Some t \<Rightarrow> t \<notin> set (map snd MessageType))))
   \<and> map snd MessageType =
       [''tunnel:register'', ''tunnel:registered'', ''tunnel:close'', ''tunnel:closed'',
        ''http:request'', ''http:response'', ''http:error'', ''ping'', ''pong'', ''error'',
        ''inspect:request'', ''inspect:response'', ''replay:request'', ''replay:response'']
   \<and> (parseMessage JSON_parse data \<noteq> None \<longrightarrow> parseMessage JSON_parse data = JSON_parse data)
   \<and> (parseMessage JSON_parse data = None \<longrightarrow>
        handleMessage JSON_parse readyState now data =
          (if readyState = 1
           then [Sent (createErrorMessage ''Invalid message format'' ''INVALID_MESSAGE'' now)]
           else []))
   \<and> (parseMessage JSON_parse data \<noteq> None \<longrightarrow>
        Sent (createErrorMessage ''Invalid message format'' ''INVALID_MESSAGE'' now)
          \<notin> set (handleMessage JSON_parse readyState now data))
   \<and> (JSON_parse data = Some parsed \<and> type_field parsed = Some t
        \<and> t \<in> set [''tunnel:registered'', ''tunnel:closed'', ''http:request'', ''error'',
                ''inspect:request'', ''inspect:response'', ''replay:request'', ''replay:response''] \<longrightarrow>
        handleMessage JSON_parse readyState now data =
          send readyState (createErrorMessage (''Unknown message type: '' @ t) ''UNKNOWN_MESSAGE'' now))"
proof (intro conjI impI)
  show "parseMessage JSON_parse data = None \<longleftrightarrow>
      (case JSON_parse data of
         None \<Rightarrow> True
       | Some parsed \<Rightarrow>
           (case type_field parsed of
              None \<Rightarrow> True
            | Some t \<Rightarrow> t \<notin> set (map snd MessageType)))"
    by (rule parseMessage_None_iff)
next
  show "map snd MessageType =
       [''tunnel:register'', ''tunnel:registered'', ''tunnel:close'', ''tunnel:closed'',
        ''http:request'', ''http:response'', ''http:error'', ''ping'', ''pong'', ''error'',
        ''inspect:request'', ''inspect:response'', ''replay:request'', ''replay:response'']"
    by (rule MessageType_values)
next
  assume "parseMessage JSON_parse data \<noteq> None"
  then obtain message where m: "parseMessage JSON_parse data = Some message" by auto
  then have "JSON_parse data = Some message" by (simp add: parseMessage_Some_iff)
  with m show "parseMessage JSON_parse data = JSON_parse data" by simp
next
  assume "parseMessage JSON_parse data = None"
  then show "handleMessage JSON_parse readyState now data =
          (if readyState = 1
           then [Sent (createErrorMessage ''Invalid message format'' ''INVALID_MESSAGE'' now)]
           else [])"
    by (rule handleMessage_invalid)
next
  assume "parseMessage JSON_parse data \<noteq> None"
  then show "Sent (createErrorMessage ''Invalid message format'' ''INVALID_MESSAGE'' now)
          \<notin> set (handleMessage JSON_parse readyState now data)"
    by (rule handleMessage_valid_no_invalid_reply)
next
  assume "JSON_parse data = Some parsed \<and> type_field parsed = Some t
        \<and> t \<in> set [''tunnel:registered'', ''tunnel:closed'', ''http:request'', ''error'',
                ''inspect:request'', ''inspect:response'', ''replay:request'', ''replay:response'']"
  then show "handleMessage JSON_parse readyState now data =
          send readyState (createErrorMessage (''Unknown message type: '' @ t) ''UNKNOWN_MESSAGE'' now)"
    using handleMessage_unhandled by blast
qed

theorem parseMessage_fails_iff_witness:
  "parseMessage (\<lambda>d. None) ''not json'' = None
   \<and> handleMessage (\<lambda>d. None) 1 42 ''not json'' =
       [Sent (createErrorMessage ''Invalid message format'' ''INVALID_MESSAGE'' 42)]
   \<and> parseMessage (\<lambda>d. Some (JObj [(''type'', JStr ''invalid''), (''payload'', JObj [])])) ''m'' = None
   \<and> parseMessage (\<lambda>d. Some (JObj [(''type'', JStr ''ping''), (''payload'', JObj [(''timestamp'', JNum 7)])])) ''m'' =
       Some (JObj [(''type'', JStr ''ping''), (''payload'', JObj [(''timestamp'', JNum 7)])])
   \<and> handleMessage (\<lambda>d. Some (JObj [(''type'', JStr ''tunnel:registered''), (''payload'', JObj [])])) 1 42 ''m'' =
       [Sent (createErrorMessage ''Unknown message type: tunnel:registered'' ''UNKNOWN_MESSAGE'' 42)]"
proof -
  let ?bad = "\<lambda>d::string. (None :: json option)"
  let ?inv = "\<lambda>d::string. Some (JObj [(''type'', JStr ''invalid''), (''payload'', JObj [])])"
  let ?ping = "\<lambda>d::string. Some (JObj [(''type'', JStr ''ping''), (''payload'', JObj [(''timestamp'', JNum 7)])])"
  let ?reg = "\<lambda>d::string. Some (JObj [(''type'', JStr ''tunnel:registered''), (''payload'', JObj [])])"
  note fails = parseMessage_fails_iff [THEN conjunct1]
  note same = parseMessage_fails_iff [THEN conjunct2, THEN conjunct2, THEN conjunct1, rule_format]
  note invalid = parseMessage_fails_iff
    [THEN conjunct2, THEN conjunct2, THEN conjunct2, THEN conjunct1, rule_format]
  note unknown = parseMessage_fails_iff
    [THEN conjunct2, THEN conjunct2, THEN conjunct2, THEN conjunct2, THEN conjunct2, rule_format]
  have 1: "parseMessage ?bad ''not json'' = None"
    using fails [of ?bad "''not json''"] by simp
  have 2: "handleMessage ?bad 1 42 ''not json'' =
       [Sent (createErrorMessage ''Invalid message format'' ''INVALID_MESSAGE'' 42)]"
    using invalid [of ?bad "''not json''" 1 42, OF 1] by simp
  have 3: "parseMessage ?inv ''m'' = None"
    using fails [of ?inv "''m''"] by (simp add: type_field_def MessageType_def)
  have "parseMessage ?ping ''m'' \<noteq> None"
    using fails [of ?ping "''m''"] by (simp add: type_field_def MessageType_def)
  from same [of ?ping "''m''", OF this]
  have 4: "parseMessage ?ping ''m'' =
       Some (JObj [(''type'', JStr ''ping''), (''payload'', JObj [(''timestamp'', JNum 7)])])" .
  have 5: "handleMessage ?reg 1 42 ''m'' =
       [Sent (createErrorMessage ''Unknown message type: tunnel:registered'' ''UNKNOWN_MESSAGE'' 42)]"
    using unknown [of ?reg "''m''"
        "JObj [(''type'', JStr ''tunnel:registered''), (''payload'', JObj [])]" "''tunnel:registered''" 1 42]
    by (simp add: type_field_def send_def)
  from 1 2 3 4 5 show ?thesis by (intro conjI)
qed

theorem parseMessage_fails_iff_counterexample:
  "''error'' \<notin> set specified_types
   \<and> parseMessage (\<lambda>d. Some (JObj [(''type'', JStr ''error''), (''payload'', JObj [])])) ''m'' =
       Some (JObj [(''type'', JStr ''error''), (''payload'', JObj [])])
   \<and> handleMessage (\<lambda>d. Some (JObj [(''type'', JStr ''error''), (''payload'', JObj [])])) 1 42 ''m'' =
       [Sent (createErrorMessage ''Unknown message type: error'' ''UNKNOWN_MESSAGE'' 42)]
   \<and> handleMessage (\<lambda>d. None) 3 42 ''not json'' = []"
proof -
  let ?err = "\<lambda>d::string. Some (JObj [(''type'', JStr ''error''), (''payload'', JObj [])])"
  have 1: "''error'' \<notin> set specified_types" by (simp add: specified_types_def)
  have 2: "parseMessage ?err ''m'' = Some (JObj [(''type'', JStr ''error''), (''payload'', JObj [])])"
    by (simp add: parseMessage_Some_iff type_field_def MessageType_values)
  have 3: "handleMessage ?err 1 42 ''m'' =
       [Sent (createErrorMessage ''Unknown message type: error'' ''UNKNOWN_MESSAGE'' 42)]"
    by (simp add: handleMessage_def 2 send_def)
  have 4: "handleMessage (\<lambda>d. None) 3 42 ''not json'' = []"
    by (simp add: handleMessage_def parseMessage_def send_def)
  from 1 2 3 4 show ?thesis by (intro conjI)
qed

section \<open>Bounds of the inspector\<close>















section \<open>The curl command\<close>

lemma push_headers_eq:
  "push_headers parts hs =
     parts @ map (\<lambda>(key, value). ''-H '' @ [quote] @ key @ '': '' @ value @ [quote])
               (filter (\<lambda>(key, value). toLowerCase key \<notin> set [''host'', ''content-length'']) hs)"
  by (induction parts hs rule: push_headers.induct) auto

lemma replace_quotes_eq:
  "replace_quotes b = concat (map (\<lambda>c. if c = quote then [quote, backslash, quote, quote] else [c]) b)"
  by (induction b) auto

text \<open>
  The parts of the command for every exchange: \<open>curl\<close>; \<open>-X METHOD\<close> exactly when the
  request method is not \<open>GET\<close>; one \<open>-H\<close> part for each header other than \<open>host\<close> and
  \<open>content-length\<close> (in any case of letters), in order; \<open>-d\<close> with the body between
  quotes exactly when the body is a non-empty string, every quote in it replaced; and the
  URL, whose domain is the constant \<open>example.com\<close>.
\<close>

lemma toCurl_parts_eq:
  "toCurl_parts t =
     [''curl'']
     @ (if httpMethod (request t) \<noteq> ''GET'' then [''-X '' @ httpMethod (request t)] else [])
     @ map (\<lambda>(key, value). ''-H '' @ [quote] @ key @ '': '' @ value @ [quote])
         (filter (\<lambda>(key, value). toLowerCase key \<notin> set [''host'', ''content-length''])
            (headers (request t)))
     @ (case body (request t) of
          Some b \<Rightarrow> if b \<noteq> [] then [''-d '' @ [quote] @ replace_quotes b @ [quote]] else []
        | None \<Rightarrow> [])
     @ [[quote] @ ''https://'' @ trafficSubdomain t @ ''.example.com'' @ path (request t) @ [quote]]"
  by (simp add: toCurl_parts_def push_headers_eq Let_def split: option.splits)

lemma lower_header_names:
  "toLowerCase ''host'' = ''host''" "toLowerCase ''content-type'' = ''content-type''"
  "toLowerCase ''authorization'' = ''authorization''"
  "toLowerCase ''content-length'' = ''content-length''"
  by code_simp+

text \<open>
  C7. The claim: the command targets
  \<^verbatim>\<open>https://<subdomain>.<configured-public-domain><path>\<close>, built from the public
  domain the gateway is configured with. \<open>toCurl\<close> has no access to the configuration and
  writes the constant \<open>example.com\<close>: for the exchange below, captured by a gateway whose
  public domain is \<open>localhost\<close> (the default), the last part of the command is the URL
  \<^verbatim>\<open>https://demo1.example.com/x\<close> between quotes. The other parts are as the claim says.
\<close>

theorem toCurl_domain_is_constant:
  \<open>toCurl_parts (new_InspectedTraffic ''00000000000000a1'' ''AAAAAAAAAAAA'' ''demo1'' demo_post 100) =
     [''curl'',
      ''-X POST'',
      ''-H '' @ [quote] @ ''content-type: application/json'' @ [quote],
      ''-H '' @ [quote] @ ''authorization: Bearer s3cret'' @ [quote],
      ''-d '' @ [quote] @ ''{"a":1}'' @ [quote],
      [quote] @ ''https://demo1.example.com/x'' @ [quote]]
   \<and> toCurl (new_InspectedTraffic ''00000000000000a1'' ''AAAAAAAAAAAA'' ''demo1'' demo_post 100) =
     ''curl'' @ [CHR '' '', backslash, newline] @ ''  -X POST''
       @ [CHR '' '', backslash, newline] @ ''  -H '' @ [quote] @ ''content-type: application/json'' @ [quote]
       @ [CHR '' '', backslash, newline] @ ''  -H '' @ [quote] @ ''authorization: Bearer s3cret'' @ [quote]
       @ [CHR '' '', backslash, newline] @ ''  -d '' @ [quote] @ ''{"a":1}'' @ [quote]
       @ [CHR '' '', backslash, newline] @ ''  '' @ [quote] @ ''https://demo1.example.com/x'' @ [quote]\<close>
proof -
  have q: "replace_quotes b = b" if "quote \<notin> set b" for b
    using that by (induction b) auto
  have parts: \<open>toCurl_parts (new_InspectedTraffic ''00000000000000a1'' ''AAAAAAAAAAAA'' ''demo1'' demo_post 100) =
     [''curl'',
      ''-X POST'',
      ''-H '' @ [quote] @ ''content-type: application/json'' @ [quote],
      ''-H '' @ [quote] @ ''authorization: Bearer s3cret'' @ [quote],
      ''-d '' @ [quote] @ ''{"a":1}'' @ [quote],
      [quote] @ ''https://demo1.example.com/x'' @ [quote]]\<close>
    by (simp add: toCurl_parts_eq new_InspectedTraffic_def demo_post_def lower_header_names q quote_def)
  show ?thesis
    unfolding toCurl_def parts by simp
qed

section \<open>Outcomes of a forwarded request\<close>

lemma getPendingRequest_removed [simp]:
  "getPendingRequest rid (removePendingRequest rid t) = None"
  by (simp add: getPendingRequest_def removePendingRequest_def delete_conv')

lemma removePendingRequest_counters [simp]:
  "bytesIn (removePendingRequest rid t) = bytesIn t"
  "bytesOut (removePendingRequest rid t) = bytesOut t"
  "requestCount (removePendingRequest rid t) = requestCount t"
  by (simp_all add: removePendingRequest_def)

lemma recordRequest_fields [simp]:
  "bytesIn (recordRequest bIn bOut now t) = bytesIn t + bIn"
  "bytesOut (recordRequest bIn bOut now t) = bytesOut t + bOut"
  "requestCount (recordRequest bIn bOut now t) = requestCount t + 1"
  "pendingRequests (recordRequest bIn bOut now t) = pendingRequests t"
  "lastActivity (recordRequest bIn bOut now t) = now"
  by (simp_all add: recordRequest_def touch_def)

lemma getPendingRequest_recordRequest [simp]:
  "getPendingRequest rid (recordRequest bIn bOut now t) = getPendingRequest rid t"
  by (simp add: getPendingRequest_def)















end
